theory Spec2Isabelle
  imports Main "HOL-Library.Word"
begin

unbundle bit_operations_syntax

section \<open>Values of the host language\<close>

text \<open>
  A Buffer is a list of bytes. A JavaScript string is a list of UTF-16 code units; this
  is the type of the plaintext, of the salt and of what \<open>decrypt\<close> returns. Envelopes,
  algorithm names and hex digests are strings over 8-bit code units (\<^typ>\<open>string\<close>):
  base64 and hex text is ASCII.
\<close>

type_synonym byte = "8 word"
type_synonym buffer = "byte list"
type_synonym jsstring = "16 word list"

text \<open>
  The Numbers that \<open>parseInt\<close> can give: NaN, the two infinities, the negative zero and
  the integers that a double holds (\<open>Num n\<close>).
\<close>

datatype jsnumber = NaN | NegInfinity | NegZero | Num int | PosInfinity

text \<open>
  The values that are handed to the module as a message or as a key id: a string, one
  of the Numbers above, or \<open>undefined\<close>.
\<close>

datatype jsvalue = JString jsstring | JNumber jsnumber | JUndefined

text \<open>
  The thrown errors, named by what the message of each \<open>throw\<close> says.
  \<open>KeyLengthMismatch e n\<close> is "Expected key to be e bytes long; got n instead", where
  \<open>e\<close> is \<open>None\<close> when the message prints NaN.
\<close>

datatype error =
    MissingSalt
  | UnsupportedAlgorithm
  | KeyLengthMismatch "nat option" nat
  | EmptyKeyring
  | InvalidKeyId
  | UnknownKeyId
  | IntegrityError
  | DecryptionError
  | NonStringDigestInput
  | TypeError
  | CipherError

subsection \<open>\<open>Buffer.from(string)\<close> and \<open>buffer.toString()\<close>: UTF-8\<close>

definition is_high_surrogate :: "16 word \<Rightarrow> bool" where
  "is_high_surrogate u = (0xD800 \<le> uint u \<and> uint u \<le> 0xDBFF)"

definition is_low_surrogate :: "16 word \<Rightarrow> bool" where
  "is_low_surrogate u = (0xDC00 \<le> uint u \<and> uint u \<le> 0xDFFF)"

definition utf8_bytes :: "int \<Rightarrow> buffer" where
  "utf8_bytes cp =
     (if cp < 0x80 then [of_int cp]
      else if cp < 0x800 then [of_int (0xC0 + cp div 64), of_int (0x80 + cp mod 64)]
      else if cp < 0x10000 then
        [of_int (0xE0 + cp div 4096), of_int (0x80 + cp div 64 mod 64), of_int (0x80 + cp mod 64)]
      else
        [of_int (0xF0 + cp div 262144), of_int (0x80 + cp div 4096 mod 64),
         of_int (0x80 + cp div 64 mod 64), of_int (0x80 + cp mod 64)])"

text \<open>
  \<open>Buffer.from(message)\<close>: a surrogate pair is one code point of four bytes, an unpaired
  surrogate is written as U+FFFD.
\<close>

fun utf8_encode :: "jsstring \<Rightarrow> buffer" where
  "utf8_encode [] = []"
| "utf8_encode (u # us) =
     (if is_high_surrogate u then
        (case us of
           [] \<Rightarrow> utf8_bytes 0xFFFD
         | l # us' \<Rightarrow>
             if is_low_surrogate l
             then utf8_bytes (0x10000 + (uint u - 0xD800) * 1024 + (uint l - 0xDC00)) @ utf8_encode us'
             else utf8_bytes 0xFFFD @ utf8_encode us)
      else if is_low_surrogate u then utf8_bytes 0xFFFD @ utf8_encode us
      else utf8_bytes (uint u) @ utf8_encode us)"

definition utf16_units :: "int \<Rightarrow> jsstring" where
  "utf16_units cp =
     (if cp < 0x10000 then [of_int cp]
      else [of_int (0xD800 + (cp - 0x10000) div 1024), of_int (0xDC00 + (cp - 0x10000) mod 1024)])"

text \<open>
  \<open>buffer.toString()\<close>: the UTF-8 decoder. \<open>needed\<close> counts the continuation bytes still
  expected (0 between code points), \<open>cp\<close> is the code point read so far and \<open>lo\<close>, \<open>hi\<close>
  bound the next continuation byte. An ill-formed sequence gives U+FFFD and the
  offending byte is read again as the start of a sequence.
\<close>

function utf8_dec :: "nat \<Rightarrow> int \<Rightarrow> int \<Rightarrow> int \<Rightarrow> buffer \<Rightarrow> jsstring" where
  "utf8_dec needed cp lo hi [] = (if needed = 0 then [] else [0xFFFD])"
| "utf8_dec needed cp lo hi (b # bs) =
     (if needed = 0 then
        (if uint b < 0x80 then of_int (uint b) # utf8_dec 0 0 0x80 0xBF bs
         else if 0xC2 \<le> uint b \<and> uint b \<le> 0xDF then utf8_dec 1 (uint b - 0xC0) 0x80 0xBF bs
         else if 0xE0 \<le> uint b \<and> uint b \<le> 0xEF then
           utf8_dec 2 (uint b - 0xE0) (if uint b = 0xE0 then 0xA0 else 0x80)
                    (if uint b = 0xED then 0x9F else 0xBF) bs
         else if 0xF0 \<le> uint b \<and> uint b \<le> 0xF4 then
           utf8_dec 3 (uint b - 0xF0) (if uint b = 0xF0 then 0x90 else 0x80)
                    (if uint b = 0xF4 then 0x8F else 0xBF) bs
         else 0xFFFD # utf8_dec 0 0 0x80 0xBF bs)
      else if lo \<le> uint b \<and> uint b \<le> hi then
        (if needed = 1 then utf16_units (cp * 64 + (uint b - 0x80)) @ utf8_dec 0 0 0x80 0xBF bs
         else utf8_dec (needed - 1) (cp * 64 + (uint b - 0x80)) 0x80 0xBF bs)
      else 0xFFFD # utf8_dec 0 0 0x80 0xBF (b # bs))"
  by pat_completeness auto
termination
  by (relation "measure (\<lambda>(needed, cp, lo, hi, bs). 2 * length bs + (if needed = 0 then 0 else 1))")
     auto

definition utf8_decode :: "buffer \<Rightarrow> jsstring" where
  "utf8_decode bs = utf8_dec 0 0 0x80 0xBF bs"

text \<open>
  A string is well formed when each of its surrogates is half of a pair: a high
  surrogate followed by a low one.
\<close>

fun well_formed :: "jsstring \<Rightarrow> bool" where
  "well_formed [] = True"
| "well_formed (u # us) =
     (if is_high_surrogate u then
        (case us of [] \<Rightarrow> False | l # us' \<Rightarrow> is_low_surrogate l \<and> well_formed us')
      else \<not> is_low_surrogate u \<and> well_formed us)"

subsection \<open>\<open>digest("hex")\<close>\<close>

definition hex_digit :: "int \<Rightarrow> char" where
  "hex_digit n = ''0123456789abcdef'' ! nat n"

definition hex_byte :: "byte \<Rightarrow> string" where
  "hex_byte b = [hex_digit (uint b div 16), hex_digit (uint b mod 16)]"

definition hex :: "buffer \<Rightarrow> string" where
  "hex bs = concat (map hex_byte bs)"

section \<open>The hash functions of the crypto module\<close>

text \<open>
  32-bit words of the hash functions are integers in \<open>[0, 2^32)\<close>, with the wrap-around
  written out.
\<close>

definition add32 :: "int \<Rightarrow> int \<Rightarrow> int" where
  "add32 x y = (x + y) mod 2 ^ 32"

definition rotl32 :: "nat \<Rightarrow> int \<Rightarrow> int" where
  "rotl32 n x = (x * 2 ^ n) mod 2 ^ 32 + x div 2 ^ (32 - n)"

definition rotr32 :: "nat \<Rightarrow> int \<Rightarrow> int" where
  "rotr32 n x = x div 2 ^ n + (x mod 2 ^ n) * 2 ^ (32 - n)"

definition not32 :: "int \<Rightarrow> int" where
  "not32 x = 4294967295 - x"

fun be32 :: "buffer \<Rightarrow> int" where
  "be32 (a # b # c # d # _) = ((uint a * 256 + uint b) * 256 + uint c) * 256 + uint d"
| "be32 _ = 0"

definition be32_bytes :: "int \<Rightarrow> buffer" where
  "be32_bytes w = [of_int (w div 16777216), of_int (w div 65536), of_int (w div 256), of_int w]"

definition be64_bytes :: "nat \<Rightarrow> buffer" where
  "be64_bytes n = map (\<lambda>i. of_int (int n div 256 ^ (7 - i))) [0..<8]"

fun chunks :: "nat \<Rightarrow> 'a list \<Rightarrow> 'a list list" where
  "chunks n [] = []"
| "chunks n (x # xs) =
     (if n = 0 then [x # xs] else take n (x # xs) # chunks n (drop n (x # xs)))"

text \<open>Merkle-Damgard padding to a multiple of 64 bytes: 0x80, zeros, the bit length.\<close>

definition md_pad :: "buffer \<Rightarrow> buffer" where
  "md_pad m =
     m @ [0x80] @ replicate ((119 - length m mod 64) mod 64) 0 @ be64_bytes (8 * length m)"

subsection \<open>SHA-1\<close>

definition sha1_f :: "nat \<Rightarrow> int \<Rightarrow> int \<Rightarrow> int \<Rightarrow> int" where
  "sha1_f t b c d =
     (if t < 20 then (b AND c) OR (not32 b AND d)
      else if t < 40 then b XOR c XOR d
      else if t < 60 then (b AND c) OR (b AND d) OR (c AND d)
      else b XOR c XOR d)"

definition sha1_k :: "nat \<Rightarrow> int" where
  "sha1_k t =
     (if t < 20 then 0x5A827999 else if t < 40 then 0x6ED9EBA1
      else if t < 60 then 0x8F1BBCDC else 0xCA62C1D6)"

definition sha1_schedule :: "int list \<Rightarrow> int list" where
  "sha1_schedule w16 =
     foldl (\<lambda>w t. w @ [rotl32 1 (w ! (t - 3) XOR w ! (t - 8) XOR w ! (t - 14) XOR w ! (t - 16))])
           w16 [16..<80]"

type_synonym sha1_state = "int \<times> int \<times> int \<times> int \<times> int"

fun sha1_round :: "sha1_state \<Rightarrow> nat \<times> int \<Rightarrow> sha1_state" where
  "sha1_round (a, b, c, d, e) (t, w) =
     (add32 (add32 (add32 (add32 (rotl32 5 a) (sha1_f t b c d)) e) w) (sha1_k t),
      a, rotl32 30 b, c, d)"

fun sha1_block :: "sha1_state \<Rightarrow> buffer \<Rightarrow> sha1_state" where
  "sha1_block (h0, h1, h2, h3, h4) blk =
     (case foldl sha1_round (h0, h1, h2, h3, h4)
             (zip [0..<80] (sha1_schedule (map be32 (chunks 4 blk)))) of
        (a, b, c, d, e) \<Rightarrow> (add32 h0 a, add32 h1 b, add32 h2 c, add32 h3 d, add32 h4 e))"

text \<open>\<open>crypto.createHash("sha1")\<close>, \<open>update\<close>, \<open>digest\<close>: the 20 bytes of the hash.\<close>

definition sha1_hash :: "buffer \<Rightarrow> buffer" where
  "sha1_hash m =
     (case foldl sha1_block (0x67452301, 0xEFCDAB89, 0x98BADCFE, 0x10325476, 0xC3D2E1F0)
             (chunks 64 (md_pad m)) of
        (h0, h1, h2, h3, h4) \<Rightarrow> concat (map be32_bytes [h0, h1, h2, h3, h4]))"

subsection \<open>SHA-256\<close>

definition sha256_k :: "int list" where
  "sha256_k =
     [0x428A2F98, 0x71374491, 0xB5C0FBCF, 0xE9B5DBA5, 0x3956C25B, 0x59F111F1,
      0x923F82A4, 0xAB1C5ED5, 0xD807AA98, 0x12835B01, 0x243185BE, 0x550C7DC3,
      0x72BE5D74, 0x80DEB1FE, 0x9BDC06A7, 0xC19BF174, 0xE49B69C1, 0xEFBE4786,
      0x0FC19DC6, 0x240CA1CC, 0x2DE92C6F, 0x4A7484AA, 0x5CB0A9DC, 0x76F988DA,
      0x983E5152, 0xA831C66D, 0xB00327C8, 0xBF597FC7, 0xC6E00BF3, 0xD5A79147,
      0x06CA6351, 0x14292967, 0x27B70A85, 0x2E1B2138, 0x4D2C6DFC, 0x53380D13,
      0x650A7354, 0x766A0ABB, 0x81C2C92E, 0x92722C85, 0xA2BFE8A1, 0xA81A664B,
      0xC24B8B70, 0xC76C51A3, 0xD192E819, 0xD6990624, 0xF40E3585, 0x106AA070,
      0x19A4C116, 0x1E376C08, 0x2748774C, 0x34B0BCB5, 0x391C0CB3, 0x4ED8AA4A,
      0x5B9CCA4F, 0x682E6FF3, 0x748F82EE, 0x78A5636F, 0x84C87814, 0x8CC70208,
      0x90BEFFFA, 0xA4506CEB, 0xBEF9A3F7, 0xC67178F2]"

definition sha256_init :: "int list" where
  "sha256_init =
     [0x6A09E667, 0xBB67AE85, 0x3C6EF372, 0xA54FF53A,
      0x510E527F, 0x9B05688C, 0x1F83D9AB, 0x5BE0CD19]"

definition ch32 :: "int \<Rightarrow> int \<Rightarrow> int \<Rightarrow> int" where
  "ch32 x y z = (x AND y) XOR (not32 x AND z)"

definition maj32 :: "int \<Rightarrow> int \<Rightarrow> int \<Rightarrow> int" where
  "maj32 x y z = (x AND y) XOR (x AND z) XOR (y AND z)"

definition big_sigma0 :: "int \<Rightarrow> int" where
  "big_sigma0 x = rotr32 2 x XOR rotr32 13 x XOR rotr32 22 x"

definition big_sigma1 :: "int \<Rightarrow> int" where
  "big_sigma1 x = rotr32 6 x XOR rotr32 11 x XOR rotr32 25 x"

definition small_sigma0 :: "int \<Rightarrow> int" where
  "small_sigma0 x = rotr32 7 x XOR rotr32 18 x XOR x div 2 ^ 3"

definition small_sigma1 :: "int \<Rightarrow> int" where
  "small_sigma1 x = rotr32 17 x XOR rotr32 19 x XOR x div 2 ^ 10"

definition sha256_schedule :: "int list \<Rightarrow> int list" where
  "sha256_schedule w16 =
     foldl (\<lambda>w t. w @ [add32 (add32 (add32 (small_sigma1 (w ! (t - 2))) (w ! (t - 7)))
                                  (small_sigma0 (w ! (t - 15)))) (w ! (t - 16))])
           w16 [16..<64]"

fun sha256_round :: "int list \<Rightarrow> int \<times> int \<Rightarrow> int list" where
  "sha256_round [a, b, c, d, e, f, g, h] (k, w) =
     (case add32 (add32 (add32 (add32 h (big_sigma1 e)) (ch32 e f g)) k) w of t1 \<Rightarrow>
        [add32 t1 (add32 (big_sigma0 a) (maj32 a b c)), a, b, c, add32 d t1, e, f, g])"
| "sha256_round s _ = s"

definition sha256_block :: "int list \<Rightarrow> buffer \<Rightarrow> int list" where
  "sha256_block hs blk =
     map2 add32 hs
       (foldl sha256_round hs (zip sha256_k (sha256_schedule (map be32 (chunks 4 blk)))))"

text \<open>\<open>createHash("sha256")\<close>: the 32 bytes of the hash.\<close>

definition sha256_hash :: "buffer \<Rightarrow> buffer" where
  "sha256_hash m = concat (map be32_bytes (foldl sha256_block sha256_init (chunks 64 (md_pad m))))"

subsection \<open>HMAC\<close>

definition xor_pad :: "byte \<Rightarrow> buffer \<Rightarrow> buffer" where
  "xor_pad p k = map (\<lambda>b. b XOR p) (k @ replicate (64 - length k) 0)"

text \<open>
  \<open>crypto.createHmac("sha256", key)\<close>, \<open>update(message)\<close>, \<open>digest()\<close>: a key longer
  than the 64-byte block is hashed first, a shorter one is filled with zeros.
\<close>

definition hmac_sha256 :: "buffer \<Rightarrow> buffer \<Rightarrow> buffer" where
  "hmac_sha256 key message =
     (case (if length key > 64 then sha256_hash key else key) of k0 \<Rightarrow>
        sha256_hash (xor_pad 0x5C k0 @ sha256_hash (xor_pad 0x36 k0 @ message)))"

section \<open>Base64\<close>

definition b64_char :: "int \<Rightarrow> char" where
  "b64_char n = ''ABCDEFGHIJKLMNOPQRSTUVWXYZabcdefghijklmnopqrstuvwxyz0123456789+/'' ! nat n"

text \<open>\<open>buffer.toString("base64")\<close>: the standard alphabet, padded with \<open>=\<close>.\<close>

fun base64_encode :: "buffer \<Rightarrow> string" where
  "base64_encode [] = []"
| "base64_encode [a] =
     [b64_char (uint a div 4), b64_char (uint a mod 4 * 16), CHR ''='', CHR ''='']"
| "base64_encode [a, b] =
     [b64_char (uint a div 4), b64_char (uint a mod 4 * 16 + uint b div 16),
      b64_char (uint b mod 16 * 4), CHR ''='']"
| "base64_encode (a # b # c # bs) =
     [b64_char (uint a div 4), b64_char (uint a mod 4 * 16 + uint b div 16),
      b64_char (uint b mod 16 * 4 + uint c div 64), b64_char (uint c mod 64)] @ base64_encode bs"

text \<open>The value of a base64 character; the URL-safe \<open>-\<close> and \<open>_\<close> are read as well.\<close>

definition unbase64 :: "char \<Rightarrow> int option" where
  "unbase64 c =
     (if 65 \<le> (of_char c :: int) \<and> (of_char c :: int) \<le> 90 then Some (of_char c - 65)
      else if 97 \<le> (of_char c :: int) \<and> (of_char c :: int) \<le> 122 then Some (of_char c - 71)
      else if 48 \<le> (of_char c :: int) \<and> (of_char c :: int) \<le> 57 then Some (of_char c + 4)
      else if c = CHR ''+'' \<or> c = CHR ''-'' then Some 62
      else if c = CHR ''/'' \<or> c = CHR ''_'' then Some 63
      else None)"

fun sextets_bytes :: "int list \<Rightarrow> buffer" where
  "sextets_bytes (a # b # c # d # rest) =
     [of_int (a * 4 + b div 16), of_int (b mod 16 * 16 + c div 4), of_int (c mod 4 * 64 + d)]
     @ sextets_bytes rest"
| "sextets_bytes [a, b, c] = [of_int (a * 4 + b div 16), of_int (b mod 16 * 16 + c div 4)]"
| "sextets_bytes [a, b] = [of_int (a * 4 + b div 16)]"
| "sextets_bytes _ = []"

text \<open>
  \<open>Buffer.from(text, "base64")\<close>: the decoder never fails. It stops at the first \<open>=\<close>,
  skips every character outside the alphabet and turns each group of four values
  into three bytes (a last group of three into two, of two into one).
\<close>

definition base64_decode :: "string \<Rightarrow> buffer" where
  "base64_decode s =
     sextets_bytes (List.map_filter unbase64 (takeWhile (\<lambda>c. c \<noteq> CHR ''='') s))"

section \<open>AES in CBC mode\<close>

definition sbox_table :: "byte list" where
  "sbox_table =
     [0x63, 0x7C, 0x77, 0x7B, 0xF2, 0x6B, 0x6F, 0xC5, 0x30, 0x01, 0x67, 0x2B, 0xFE, 0xD7, 0xAB, 0x76,
      0xCA, 0x82, 0xC9, 0x7D, 0xFA, 0x59, 0x47, 0xF0, 0xAD, 0xD4, 0xA2, 0xAF, 0x9C, 0xA4, 0x72, 0xC0,
      0xB7, 0xFD, 0x93, 0x26, 0x36, 0x3F, 0xF7, 0xCC, 0x34, 0xA5, 0xE5, 0xF1, 0x71, 0xD8, 0x31, 0x15,
      0x04, 0xC7, 0x23, 0xC3, 0x18, 0x96, 0x05, 0x9A, 0x07, 0x12, 0x80, 0xE2, 0xEB, 0x27, 0xB2, 0x75,
      0x09, 0x83, 0x2C, 0x1A, 0x1B, 0x6E, 0x5A, 0xA0, 0x52, 0x3B, 0xD6, 0xB3, 0x29, 0xE3, 0x2F, 0x84,
      0x53, 0xD1, 0x00, 0xED, 0x20, 0xFC, 0xB1, 0x5B, 0x6A, 0xCB, 0xBE, 0x39, 0x4A, 0x4C, 0x58, 0xCF,
      0xD0, 0xEF, 0xAA, 0xFB, 0x43, 0x4D, 0x33, 0x85, 0x45, 0xF9, 0x02, 0x7F, 0x50, 0x3C, 0x9F, 0xA8,
      0x51, 0xA3, 0x40, 0x8F, 0x92, 0x9D, 0x38, 0xF5, 0xBC, 0xB6, 0xDA, 0x21, 0x10, 0xFF, 0xF3, 0xD2,
      0xCD, 0x0C, 0x13, 0xEC, 0x5F, 0x97, 0x44, 0x17, 0xC4, 0xA7, 0x7E, 0x3D, 0x64, 0x5D, 0x19, 0x73,
      0x60, 0x81, 0x4F, 0xDC, 0x22, 0x2A, 0x90, 0x88, 0x46, 0xEE, 0xB8, 0x14, 0xDE, 0x5E, 0x0B, 0xDB,
      0xE0, 0x32, 0x3A, 0x0A, 0x49, 0x06, 0x24, 0x5C, 0xC2, 0xD3, 0xAC, 0x62, 0x91, 0x95, 0xE4, 0x79,
      0xE7, 0xC8, 0x37, 0x6D, 0x8D, 0xD5, 0x4E, 0xA9, 0x6C, 0x56, 0xF4, 0xEA, 0x65, 0x7A, 0xAE, 0x08,
      0xBA, 0x78, 0x25, 0x2E, 0x1C, 0xA6, 0xB4, 0xC6, 0xE8, 0xDD, 0x74, 0x1F, 0x4B, 0xBD, 0x8B, 0x8A,
      0x70, 0x3E, 0xB5, 0x66, 0x48, 0x03, 0xF6, 0x0E, 0x61, 0x35, 0x57, 0xB9, 0x86, 0xC1, 0x1D, 0x9E,
      0xE1, 0xF8, 0x98, 0x11, 0x69, 0xD9, 0x8E, 0x94, 0x9B, 0x1E, 0x87, 0xE9, 0xCE, 0x55, 0x28, 0xDF,
      0x8C, 0xA1, 0x89, 0x0D, 0xBF, 0xE6, 0x42, 0x68, 0x41, 0x99, 0x2D, 0x0F, 0xB0, 0x54, 0xBB, 0x16]"

definition inv_sbox_table :: "byte list" where
  "inv_sbox_table =
     [0x52, 0x09, 0x6A, 0xD5, 0x30, 0x36, 0xA5, 0x38, 0xBF, 0x40, 0xA3, 0x9E, 0x81, 0xF3, 0xD7, 0xFB,
      0x7C, 0xE3, 0x39, 0x82, 0x9B, 0x2F, 0xFF, 0x87, 0x34, 0x8E, 0x43, 0x44, 0xC4, 0xDE, 0xE9, 0xCB,
      0x54, 0x7B, 0x94, 0x32, 0xA6, 0xC2, 0x23, 0x3D, 0xEE, 0x4C, 0x95, 0x0B, 0x42, 0xFA, 0xC3, 0x4E,
      0x08, 0x2E, 0xA1, 0x66, 0x28, 0xD9, 0x24, 0xB2, 0x76, 0x5B, 0xA2, 0x49, 0x6D, 0x8B, 0xD1, 0x25,
      0x72, 0xF8, 0xF6, 0x64, 0x86, 0x68, 0x98, 0x16, 0xD4, 0xA4, 0x5C, 0xCC, 0x5D, 0x65, 0xB6, 0x92,
      0x6C, 0x70, 0x48, 0x50, 0xFD, 0xED, 0xB9, 0xDA, 0x5E, 0x15, 0x46, 0x57, 0xA7, 0x8D, 0x9D, 0x84,
      0x90, 0xD8, 0xAB, 0x00, 0x8C, 0xBC, 0xD3, 0x0A, 0xF7, 0xE4, 0x58, 0x05, 0xB8, 0xB3, 0x45, 0x06,
      0xD0, 0x2C, 0x1E, 0x8F, 0xCA, 0x3F, 0x0F, 0x02, 0xC1, 0xAF, 0xBD, 0x03, 0x01, 0x13, 0x8A, 0x6B,
      0x3A, 0x91, 0x11, 0x41, 0x4F, 0x67, 0xDC, 0xEA, 0x97, 0xF2, 0xCF, 0xCE, 0xF0, 0xB4, 0xE6, 0x73,
      0x96, 0xAC, 0x74, 0x22, 0xE7, 0xAD, 0x35, 0x85, 0xE2, 0xF9, 0x37, 0xE8, 0x1C, 0x75, 0xDF, 0x6E,
      0x47, 0xF1, 0x1A, 0x71, 0x1D, 0x29, 0xC5, 0x89, 0x6F, 0xB7, 0x62, 0x0E, 0xAA, 0x18, 0xBE, 0x1B,
      0xFC, 0x56, 0x3E, 0x4B, 0xC6, 0xD2, 0x79, 0x20, 0x9A, 0xDB, 0xC0, 0xFE, 0x78, 0xCD, 0x5A, 0xF4,
      0x1F, 0xDD, 0xA8, 0x33, 0x88, 0x07, 0xC7, 0x31, 0xB1, 0x12, 0x10, 0x59, 0x27, 0x80, 0xEC, 0x5F,
      0x60, 0x51, 0x7F, 0xA9, 0x19, 0xB5, 0x4A, 0x0D, 0x2D, 0xE5, 0x7A, 0x9F, 0x93, 0xC9, 0x9C, 0xEF,
      0xA0, 0xE0, 0x3B, 0x4D, 0xAE, 0x2A, 0xF5, 0xB0, 0xC8, 0xEB, 0xBB, 0x3C, 0x83, 0x53, 0x99, 0x61,
      0x17, 0x2B, 0x04, 0x7E, 0xBA, 0x77, 0xD6, 0x26, 0xE1, 0x69, 0x14, 0x63, 0x55, 0x21, 0x0C, 0x7D]"

definition sbox :: "byte \<Rightarrow> byte" where
  "sbox b = sbox_table ! unat b"

definition inv_sbox :: "byte \<Rightarrow> byte" where
  "inv_sbox b = inv_sbox_table ! unat b"

text \<open>Multiplication by \<open>x\<close> in GF(2^8) modulo \<open>x^8 + x^4 + x^3 + x + 1\<close>.\<close>

definition xtime :: "byte \<Rightarrow> byte" where
  "xtime b = push_bit 1 b XOR (if bit b 7 then 0x1B else 0)"

definition mul3 :: "byte \<Rightarrow> byte" where
  "mul3 b = xtime b XOR b"

definition mul9 :: "byte \<Rightarrow> byte" where
  "mul9 b = xtime (xtime (xtime b)) XOR b"

definition mul11 :: "byte \<Rightarrow> byte" where
  "mul11 b = xtime (xtime (xtime b)) XOR xtime b XOR b"

definition mul13 :: "byte \<Rightarrow> byte" where
  "mul13 b = xtime (xtime (xtime b)) XOR xtime (xtime b) XOR b"

definition mul14 :: "byte \<Rightarrow> byte" where
  "mul14 b = xtime (xtime (xtime b)) XOR xtime (xtime b) XOR xtime b"

text \<open>The state is the 16-byte block, column after column.\<close>

definition sub_bytes :: "buffer \<Rightarrow> buffer" where
  "sub_bytes s = map sbox s"

definition inv_sub_bytes :: "buffer \<Rightarrow> buffer" where
  "inv_sub_bytes s = map inv_sbox s"

definition shift_rows :: "buffer \<Rightarrow> buffer" where
  "shift_rows s = map (\<lambda>i. s ! i) [0, 5, 10, 15, 4, 9, 14, 3, 8, 13, 2, 7, 12, 1, 6, 11]"

definition inv_shift_rows :: "buffer \<Rightarrow> buffer" where
  "inv_shift_rows s = map (\<lambda>i. s ! i) [0, 13, 10, 7, 4, 1, 14, 11, 8, 5, 2, 15, 12, 9, 6, 3]"

fun mix_column :: "buffer \<Rightarrow> buffer" where
  "mix_column [a, b, c, d] =
     [xtime a XOR mul3 b XOR c XOR d, a XOR xtime b XOR mul3 c XOR d,
      a XOR b XOR xtime c XOR mul3 d, mul3 a XOR b XOR c XOR xtime d]"
| "mix_column col = col"

fun inv_mix_column :: "buffer \<Rightarrow> buffer" where
  "inv_mix_column [a, b, c, d] =
     [mul14 a XOR mul11 b XOR mul13 c XOR mul9 d, mul9 a XOR mul14 b XOR mul11 c XOR mul13 d,
      mul13 a XOR mul9 b XOR mul14 c XOR mul11 d, mul11 a XOR mul13 b XOR mul9 c XOR mul14 d]"
| "inv_mix_column col = col"

definition mix_columns :: "buffer \<Rightarrow> buffer" where
  "mix_columns s = concat (map mix_column (chunks 4 s))"

definition inv_mix_columns :: "buffer \<Rightarrow> buffer" where
  "inv_mix_columns s = concat (map inv_mix_column (chunks 4 s))"

definition xor_bytes :: "buffer \<Rightarrow> buffer \<Rightarrow> buffer" where
  "xor_bytes xs ys = map2 (XOR) xs ys"

subsection \<open>Key expansion\<close>

definition rcon :: "nat \<Rightarrow> buffer" where
  "rcon j = [[0x01, 0x02, 0x04, 0x08, 0x10, 0x20, 0x40, 0x80, 0x1B, 0x36] ! (j - 1), 0, 0, 0]"

definition rot_word :: "buffer \<Rightarrow> buffer" where
  "rot_word w = drop 1 w @ take 1 w"

text \<open>
  The key of \<open>nk\<close> words of four bytes grows to \<open>4 * (nk + 7)\<close> words; four words make
  the key of one round.
\<close>

definition key_expansion_step :: "nat \<Rightarrow> buffer list \<Rightarrow> nat \<Rightarrow> buffer list" where
  "key_expansion_step nk w i =
     w @ [xor_bytes (w ! (i - nk))
            (if i mod nk = 0 then xor_bytes (map sbox (rot_word (w ! (i - 1)))) (rcon (i div nk))
             else if nk > 6 \<and> i mod nk = 4 then map sbox (w ! (i - 1))
             else w ! (i - 1))]"

definition key_expansion :: "buffer \<Rightarrow> buffer list" where
  "key_expansion key =
     foldl (key_expansion_step (length key div 4)) (chunks 4 key)
       [length key div 4 ..< 4 * (length key div 4 + 7)]"

definition round_keys :: "buffer \<Rightarrow> buffer list" where
  "round_keys key = map concat (chunks 4 (key_expansion key))"

subsection \<open>The cipher and its inverse\<close>

definition enc_round :: "buffer \<Rightarrow> buffer \<Rightarrow> buffer" where
  "enc_round s k = xor_bytes (mix_columns (shift_rows (sub_bytes s))) k"

definition enc_final :: "buffer \<Rightarrow> buffer \<Rightarrow> buffer" where
  "enc_final s k = xor_bytes (shift_rows (sub_bytes s)) k"

definition dec_round :: "buffer \<Rightarrow> buffer \<Rightarrow> buffer" where
  "dec_round s k = inv_mix_columns (xor_bytes (inv_sub_bytes (inv_shift_rows s)) k)"

definition dec_final :: "buffer \<Rightarrow> buffer \<Rightarrow> buffer" where
  "dec_final s k = xor_bytes (inv_sub_bytes (inv_shift_rows s)) k"

fun aes_rounds :: "buffer \<Rightarrow> buffer list \<Rightarrow> buffer" where
  "aes_rounds s [] = s"
| "aes_rounds s [k] = enc_final s k"
| "aes_rounds s (k # k' # ks) = aes_rounds (enc_round s k) (k' # ks)"

fun aes_cipher :: "buffer list \<Rightarrow> buffer \<Rightarrow> buffer" where
  "aes_cipher [] blk = blk"
| "aes_cipher (k0 # ks) blk = aes_rounds (xor_bytes blk k0) ks"

fun aes_inv_rounds :: "buffer \<Rightarrow> buffer list \<Rightarrow> buffer" where
  "aes_inv_rounds s [] = s"
| "aes_inv_rounds s [k] = dec_final s k"
| "aes_inv_rounds s (k # k' # ks) = aes_inv_rounds (dec_round s k) (k' # ks)"

fun aes_inv_cipher :: "buffer list \<Rightarrow> buffer \<Rightarrow> buffer" where
  "aes_inv_cipher [] blk = blk"
| "aes_inv_cipher (kn # ks) blk = aes_inv_rounds (xor_bytes blk kn) ks"

definition aes_encrypt_block :: "buffer \<Rightarrow> buffer \<Rightarrow> buffer" where
  "aes_encrypt_block key blk = aes_cipher (round_keys key) blk"

definition aes_decrypt_block :: "buffer \<Rightarrow> buffer \<Rightarrow> buffer" where
  "aes_decrypt_block key blk = aes_inv_cipher (rev (round_keys key)) blk"

subsection \<open>CBC with block padding\<close>

definition pkcs7_pad :: "buffer \<Rightarrow> buffer" where
  "pkcs7_pad m =
     m @ replicate (16 - length m mod 16) (of_int (int (16 - length m mod 16)))"

definition pkcs7_unpad :: "buffer \<Rightarrow> buffer option" where
  "pkcs7_unpad m =
     (if m = [] then None
      else if unat (last m) = 0 \<or> unat (last m) > 16 then None
      else if list_ex (\<lambda>b. b \<noteq> last m) (drop (length m - unat (last m)) m) then None
      else Some (take (length m - unat (last m)) m))"

fun cbc_encrypt_blocks :: "buffer \<Rightarrow> buffer \<Rightarrow> buffer list \<Rightarrow> buffer" where
  "cbc_encrypt_blocks key prev [] = []"
| "cbc_encrypt_blocks key prev (p # ps) =
     aes_encrypt_block key (xor_bytes p prev)
     @ cbc_encrypt_blocks key (aes_encrypt_block key (xor_bytes p prev)) ps"

fun cbc_decrypt_blocks :: "buffer \<Rightarrow> buffer \<Rightarrow> buffer list \<Rightarrow> buffer" where
  "cbc_decrypt_blocks key prev [] = []"
| "cbc_decrypt_blocks key prev (c # cs) =
     xor_bytes (aes_decrypt_block key c) prev @ cbc_decrypt_blocks key c cs"

definition cbc_encrypt :: "buffer \<Rightarrow> buffer \<Rightarrow> buffer \<Rightarrow> buffer" where
  "cbc_encrypt key iv m = cbc_encrypt_blocks key iv (chunks 16 (pkcs7_pad m))"

text \<open>
  Decryption fails on an empty input, on a length that is no multiple of the block
  size and on a last block that does not end in a padding.
\<close>

definition cbc_decrypt :: "buffer \<Rightarrow> buffer \<Rightarrow> buffer \<Rightarrow> buffer option" where
  "cbc_decrypt key iv c =
     (if c = [] \<or> length c mod 16 \<noteq> 0 then None
      else pkcs7_unpad (cbc_decrypt_blocks key iv (chunks 16 c)))"

subsection \<open>\<open>createCipheriv\<close> and \<open>createDecipheriv\<close>\<close>

text \<open>
  The ciphers of OpenSSL that a keyring can ask for, with the size of their key in
  bytes; all three work on blocks of 16 bytes.
\<close>

definition cipher_key_length :: "string \<Rightarrow> nat option" where
  "cipher_key_length = map_of [(''aes-128-cbc'', 16), (''aes-192-cbc'', 24), (''aes-256-cbc'', 32)]"

record cipher =
  cipher_key :: buffer
  cipher_iv :: buffer

text \<open>
  Both constructors throw for a key that has not the size of the cipher and for an
  initialization vector that has not 16 bytes. The module reaches them only with one of
  the three names above; any other name is an error here.
\<close>

definition createCipheriv :: "string \<Rightarrow> buffer \<Rightarrow> buffer \<Rightarrow> error + cipher" where
  "createCipheriv algorithm key iv =
     (if cipher_key_length algorithm = Some (length key) \<and> length iv = 16
      then Inr \<lparr>cipher_key = key, cipher_iv = iv\<rparr>
      else Inl CipherError)"

definition createDecipheriv :: "string \<Rightarrow> buffer \<Rightarrow> buffer \<Rightarrow> error + cipher" where
  "createDecipheriv algorithm key iv =
     (if cipher_key_length algorithm = Some (length key) \<and> length iv = 16
      then Inr \<lparr>cipher_key = key, cipher_iv = iv\<rparr>
      else Inl DecryptionError)"

text \<open>\<open>Buffer.concat([cipher.update(data), cipher.final()])\<close>.\<close>

definition cipher_update_final :: "cipher \<Rightarrow> buffer \<Rightarrow> buffer" where
  "cipher_update_final c m = cbc_encrypt (cipher_key c) (cipher_iv c) m"

definition decipher_update_final :: "cipher \<Rightarrow> buffer \<Rightarrow> error + buffer" where
  "decipher_update_final c m =
     (case cbc_decrypt (cipher_key c) (cipher_iv c) m of
        None \<Rightarrow> Inl DecryptionError
      | Some p \<Rightarrow> Inr p)"

text \<open>
  \<open>crypto.randomBytes(n)\<close> reads \<open>n\<close> bytes of the entropy source, which the model takes
  as an argument.
\<close>

definition randomBytes :: "nat \<Rightarrow> (nat \<Rightarrow> byte) \<Rightarrow> buffer" where
  "randomBytes n rng = map rng [0..<n]"

section \<open>Numbers and strings of the key ids\<close>

definition str :: "string \<Rightarrow> jsstring" where
  "str s = map (\<lambda>c. of_int (of_char c)) s"

definition is_white_space :: "16 word \<Rightarrow> bool" where
  "is_white_space c =
     (c \<in> set [0x09, 0x0A, 0x0B, 0x0C, 0x0D, 0x20, 0xA0, 0x1680, 0x2028, 0x2029, 0x202F,
                0x205F, 0x3000, 0xFEFF]
      \<or> (0x2000 \<le> uint c \<and> uint c \<le> 0x200A))"

definition is_digit :: "16 word \<Rightarrow> bool" where
  "is_digit c = (0x30 \<le> uint c \<and> uint c \<le> 0x39)"

definition decimal :: "jsstring \<Rightarrow> int" where
  "decimal ds = foldl (\<lambda>n d. 10 * n + (uint d - 0x30)) 0 ds"

fun signed_digits :: "jsstring \<Rightarrow> int \<times> jsstring" where
  "signed_digits [] = (1, [])"
| "signed_digits (c # cs) =
     (if c = 0x2D then (- 1, cs) else if c = 0x2B then (1, cs) else (1, c # cs))"

text \<open>The number of binary digits of a positive integer.\<close>

function bit_length :: "int \<Rightarrow> nat" where
  "bit_length a = (if a \<le> 0 then 0 else Suc (bit_length (a div 2)))"
  by pat_completeness auto
termination
  by (relation "measure nat") auto

declare bit_length.simps [simp del]

text \<open>
  The Number for an integer: the integer itself when 53 binary digits hold it, else the
  nearest multiple of the power of two that leaves 53 digits, a tie going to the even
  one; from \<open>2^1024\<close> on the Number is an infinity.
\<close>

definition to_double :: "int \<Rightarrow> jsnumber" where
  "to_double n =
     (let a = \<bar>n\<bar>; e = bit_length a - 53 in
      if e = 0 then Num n
      else
        let q = a div 2 ^ e; r = a mod 2 ^ e;
            m = (if 2 ^ e < 2 * r \<or> (2 * r = 2 ^ e \<and> odd q) then q + 1 else q) * 2 ^ e
        in if 2 ^ 1024 \<le> m then (if n < 0 then NegInfinity else PosInfinity)
           else Num (if n < 0 then - m else m))"

text \<open>
  \<open>parseInt(text, 10)\<close>: leading white space is dropped, a sign is read, then the
  longest run of decimal digits; what follows the digits is ignored. No digit at all
  gives NaN, and a minus sign before a zero gives the negative zero.
\<close>

definition parseInt10 :: "jsstring \<Rightarrow> jsnumber" where
  "parseInt10 s =
     (case signed_digits (dropWhile is_white_space s) of
        (sign, rest) \<Rightarrow>
          if takeWhile is_digit rest = [] then NaN
          else if sign < 0 \<and> decimal (takeWhile is_digit rest) = 0 then NegZero
          else to_double (sign * decimal (takeWhile is_digit rest)))"

text \<open>The decimal numeral of a natural number.\<close>

function digits_of :: "int \<Rightarrow> jsstring" where
  "digits_of n = (if n < 10 then [of_int (0x30 + n)] else digits_of (n div 10) @ [of_int (0x30 + n mod 10)])"
  by pat_completeness auto
termination
  by (relation "measure nat") auto

declare digits_of.simps [simp del]

text \<open>
  \<open>String(x)\<close> for a positive integer \<open>x\<close> is made of the shortest numeral \<open>s\<close>, of
  \<open>k\<close> digits, for which \<open>s * 10^(n - k)\<close> is read back as \<open>x\<close>; of two such numerals
  the one nearer to \<open>x\<close> is taken. \<open>candidate x k\<close> looks at the two numerals of \<open>k\<close>
  digits around \<open>x\<close> and gives \<open>(s, n)\<close>; 17 digits always suffice. Up to \<open>n = 21\<close> the
  string is \<open>s\<close> followed by \<open>n - k\<close> zeros, beyond it is the exponent notation. An
  integer below \<open>2^53\<close> is a Number, and the string is its decimal numeral.
\<close>

definition candidate :: "int \<Rightarrow> nat \<Rightarrow> (int \<times> nat) option" where
  "candidate x k =
     (let n = length (digits_of x); p = 10 ^ (n - k); lo = x div p; hi = lo + 1;
          lo_ok = (to_double (lo * p) = Num x); hi_ok = (to_double (hi * p) = Num x);
          s = (if lo_ok \<and> (\<not> hi_ok \<or> x - lo * p < hi * p - x
                            \<or> (x - lo * p = hi * p - x \<and> even lo))
               then lo else hi)
      in if \<not> lo_ok \<and> \<not> hi_ok then None
         else if s = 10 ^ k then Some (10 ^ (k - 1), n + 1)
         else Some (s, n))"

fun shortest_digits :: "int \<Rightarrow> nat list \<Rightarrow> int \<times> nat" where
  "shortest_digits x [] = (x div 10 ^ (length (digits_of x) - 17), length (digits_of x))"
| "shortest_digits x (k # ks) =
     (case candidate x k of Some r \<Rightarrow> r | None \<Rightarrow> shortest_digits x ks)"

definition positive_to_string :: "int \<Rightarrow> jsstring" where
  "positive_to_string x =
     (if x < 2 ^ 53 then digits_of x
      else
        (case shortest_digits x [1..<18] of
           (s, n) \<Rightarrow>
             if n \<le> 21 then digits_of s @ replicate (n - length (digits_of s)) 0x30
             else
               (case digits_of s of
                  [] \<Rightarrow> []
                | d # ds \<Rightarrow>
                    d # (if ds = [] then [] else 0x2E # ds) @ str ''e+'' @ digits_of (int n - 1))))"

text \<open>\<open>String(x)\<close> for a Number.\<close>

fun number_to_string :: "jsnumber \<Rightarrow> jsstring" where
  "number_to_string NaN = str ''NaN''"
| "number_to_string NegInfinity = str ''-Infinity''"
| "number_to_string PosInfinity = str ''Infinity''"
| "number_to_string NegZero = str ''0''"
| "number_to_string (Num n) =
     (if n < 0 then 0x2D # positive_to_string (- n) else positive_to_string n)"

text \<open>\<open>ToString\<close>, which \<open>parseInt\<close> applies to its argument first.\<close>

fun to_string :: "jsvalue \<Rightarrow> jsstring" where
  "to_string (JString s) = s"
| "to_string (JNumber n) = number_to_string n"
| "to_string JUndefined = str ''undefined''"

text \<open>
  \<open>a > b\<close> and \<open>a === b\<close> on Numbers: both are false when an operand is NaN, and the
  two zeros are equal.
\<close>

fun magnitude :: "jsnumber \<Rightarrow> int" where
  "magnitude (Num n) = n"
| "magnitude _ = 0"

fun is_infinity :: "jsnumber \<Rightarrow> bool" where
  "is_infinity NegInfinity = True"
| "is_infinity PosInfinity = True"
| "is_infinity _ = False"

definition num_gt :: "jsnumber \<Rightarrow> jsnumber \<Rightarrow> bool" where
  "num_gt a b =
     (a \<noteq> NaN \<and> b \<noteq> NaN
      \<and> (if is_infinity a then a = PosInfinity \<and> b \<noteq> PosInfinity
         else if is_infinity b then b = NegInfinity
         else magnitude b < magnitude a))"

definition num_eq :: "jsnumber \<Rightarrow> jsnumber \<Rightarrow> bool" where
  "num_eq a b =
     (a \<noteq> NaN \<and> b \<noteq> NaN
      \<and> (if is_infinity a \<or> is_infinity b then a = b else magnitude a = magnitude b))"

text \<open>The integers that \<open>Number.isSafeInteger\<close> accepts.\<close>

definition safe_integer :: "int \<Rightarrow> bool" where
  "safe_integer n = (\<bar>n\<bar> < 2 ^ 53)"

fun is_safe :: "jsnumber \<Rightarrow> bool" where
  "is_safe (Num n) = safe_integer n"
| "is_safe _ = False"

section \<open>The keyring module\<close>

record key =
  id_num :: jsnumber
  encryptionKey :: buffer
  signingKey :: buffer

text \<open>A value of the key map: a Buffer, or base64 text.\<close>

datatype secret = SecretBuffer buffer | SecretBase64 string

text \<open>
  The options of \<open>keyring\<close>. The property \<open>encryption\<close> is absent, or given as
  \<open>undefined\<close>, or a name; \<open>Object.assign\<close> copies the second over the default and
  leaves the default for the first. The salt is a string, or \<open>None\<close> when it is absent
  or \<open>undefined\<close>: the module only compares it with \<open>undefined\<close>.
\<close>

datatype 'a property = Absent | Undefined | Defined 'a

record options =
  encryption :: "string property"
  salt :: "jsstring option"

text \<open>The name under which a value is looked up in an object.\<close>

fun property_name :: "string property \<Rightarrow> string" where
  "property_name (Defined a) = a"
| "property_name _ = ''undefined''"

text \<open>
  The object \<open>keySizes\<close>, read as \<open>keySizes[name]\<close>: its three own properties, and
  those it inherits from \<open>Object.prototype\<close>, which are functions or objects and not
  sizes; any other name gives \<open>undefined\<close>.
\<close>

datatype key_size = Bytes nat | Inherited

definition object_prototype_names :: "string list" where
  "object_prototype_names =
     [''constructor'', ''__defineGetter__'', ''__defineSetter__'', ''hasOwnProperty'',
      ''__lookupGetter__'', ''__lookupSetter__'', ''isPrototypeOf'', ''propertyIsEnumerable'',
      ''toString'', ''valueOf'', ''__proto__'', ''toLocaleString'']"

definition keySizes :: "string \<Rightarrow> key_size option" where
  "keySizes name =
     (case cipher_key_length name of
        Some n \<Rightarrow> Some (Bytes n)
      | None \<Rightarrow> if name \<in> set object_prototype_names then Some Inherited else None)"

definition isString :: "jsvalue \<Rightarrow> bool" where
  "isString v = (case v of JString _ \<Rightarrow> True | _ \<Rightarrow> False)"

text \<open>\<open>Buffer.from(message)\<close> throws a TypeError for a number and for \<open>undefined\<close>.\<close>

fun Buffer_from :: "jsvalue \<Rightarrow> error + buffer" where
  "Buffer_from (JString s) = Inr (utf8_encode s)"
| "Buffer_from _ = Inl TypeError"

definition sha1 :: "jsvalue \<Rightarrow> jsstring option \<Rightarrow> error + string" where
  "sha1 v salt_opt =
     (case salt_opt of
        None \<Rightarrow> Inl MissingSalt
      | Some s \<Rightarrow>
          (case v of
             JString p \<Rightarrow> Inr (hex (sha1_hash (utf8_encode (p @ s))))
           | _ \<Rightarrow> Inl NonStringDigestInput))"

definition keyBuffer :: "secret \<Rightarrow> buffer" where
  "keyBuffer v = (case v of SecretBuffer b \<Rightarrow> b | SecretBase64 s \<Rightarrow> base64_decode s)"

text \<open>
  The key map is the list of its entries in the order of \<open>Object.keys\<close>. The first
  secret of a wrong length stops the conversion; with an inherited property for a key
  size the expected length is NaN, which no length equals.
\<close>

fun normalizeKeys :: "(jsstring \<times> secret) list \<Rightarrow> key_size \<Rightarrow> error + key list" where
  "normalizeKeys [] keySize = Inr []"
| "normalizeKeys ((i, v) # rest) Inherited = Inl (KeyLengthMismatch None (length (keyBuffer v)))"
| "normalizeKeys ((i, v) # rest) (Bytes keySize) =
     (if length (keyBuffer v) \<noteq> keySize * 2
      then Inl (KeyLengthMismatch (Some (keySize * 2)) (length (keyBuffer v)))
      else (case normalizeKeys rest (Bytes keySize) of
              Inl e \<Rightarrow> Inl e
            | Inr ks \<Rightarrow>
                Inr (\<lparr>id_num = parseInt10 i,
                      encryptionKey = drop keySize (keyBuffer v),
                      signingKey = take keySize (keyBuffer v)\<rparr> # ks)))"

definition validateKeyring :: "key list \<Rightarrow> error + unit" where
  "validateKeyring keys =
     (if length keys = 0 then Inl EmptyKeyring
      else if list_ex (\<lambda>k. id_num k = NaN) keys then Inl InvalidKeyId
      else Inr ())"

text \<open>\<open>reduce\<close> without an initial value throws a TypeError on an empty array.\<close>

fun currentKey :: "key list \<Rightarrow> error + key" where
  "currentKey [] = Inl TypeError"
| "currentKey (k # ks) = Inr (foldl (\<lambda>a b. if num_gt (id_num a) (id_num b) then a else b) k ks)"

definition findKey :: "key list \<Rightarrow> jsvalue \<Rightarrow> error + key" where
  "findKey keys i =
     (case find (\<lambda>k. num_eq (parseInt10 (number_to_string (id_num k))) (parseInt10 (to_string i)))
             keys of
        Some k \<Rightarrow> Inr k
      | None \<Rightarrow> Inl UnknownKeyId)"

definition hmacDigest :: "buffer \<Rightarrow> buffer \<Rightarrow> buffer" where
  "hmacDigest k message = hmac_sha256 k message"

definition verifySignature :: "buffer \<Rightarrow> buffer \<Rightarrow> bool" where
  "verifySignature expected actual =
     (if length expected \<noteq> length actual then False
      else foldl (\<lambda>acc i. acc OR (expected ! i XOR actual ! i)) 0 [0..<length expected] = 0)"

definition encrypt ::
  "key list \<Rightarrow> options \<Rightarrow> (nat \<Rightarrow> byte) \<Rightarrow> jsvalue \<Rightarrow> error + string \<times> jsnumber \<times> string" where
  "encrypt keys opts rng message =
     (case currentKey keys of
        Inl e \<Rightarrow> Inl e
      | Inr k \<Rightarrow>
          (case encryption opts of
             Defined algorithm \<Rightarrow>
               (case createCipheriv algorithm (encryptionKey k) (randomBytes 16 rng) of
                  Inl e \<Rightarrow> Inl e
                | Inr c \<Rightarrow>
                    (case Buffer_from message of
                       Inl e \<Rightarrow> Inl e
                     | Inr m \<Rightarrow>
                         (case sha1 message (salt opts) of
                            Inl e \<Rightarrow> Inl e
                          | Inr digest \<Rightarrow>
                              Inr (base64_encode
                                     (hmacDigest (signingKey k)
                                        (randomBytes 16 rng @ cipher_update_final c m)
                                      @ randomBytes 16 rng @ cipher_update_final c m),
                                   id_num k, digest))))
           | _ \<Rightarrow> Inl TypeError))"

text \<open>
  \<open>decrypt\<close> in two steps: \<open>decrypt\<close> decodes the envelope and cuts it with the three
  \<open>subarray\<close> calls; \<open>decrypt_parts\<close> is the rest of its body, on the three parts.
\<close>

definition decrypt_parts :: "key \<Rightarrow> options \<Rightarrow> buffer \<Rightarrow> buffer \<Rightarrow> buffer \<Rightarrow> error + jsstring" where
  "decrypt_parts k opts hmac iv encrypted =
     (case encryption opts of
        Defined algorithm \<Rightarrow>
          (case createDecipheriv algorithm (encryptionKey k) iv of
             Inl e \<Rightarrow> Inl e
           | Inr d \<Rightarrow>
               (case decipher_update_final d encrypted of
                  Inl e \<Rightarrow> Inl e
                | Inr decrypted \<Rightarrow>
                    if \<not> verifySignature (hmacDigest (signingKey k) (iv @ encrypted)) hmac
                    then Inl IntegrityError
                    else Inr (utf8_decode decrypted)))
      | _ \<Rightarrow> Inl TypeError)"

definition decrypt :: "key \<Rightarrow> options \<Rightarrow> string \<Rightarrow> error + jsstring" where
  "decrypt k opts message =
     decrypt_parts k opts
       (take 32 (base64_decode message))
       (take 16 (drop 32 (base64_decode message)))
       (drop 48 (base64_decode message))"

subsection \<open>The object that \<open>keyring\<close> returns\<close>

text \<open>
  The four closures of the returned object share the normalized keys and the options
  merged with the defaults; the record holds what they capture.
\<close>

record keyring_object =
  keys :: "key list"
  merged :: options

definition defaultKeyringOptions :: string where
  "defaultKeyringOptions = ''aes-128-cbc''"

text \<open>\<open>Object.assign({}, defaultKeyringOptions, options)\<close>.\<close>

definition assign_defaults :: "options \<Rightarrow> options" where
  "assign_defaults opts =
     (case encryption opts of
        Absent \<Rightarrow> opts\<lparr>encryption := Defined defaultKeyringOptions\<rparr>
      | _ \<Rightarrow> opts)"

definition keyring :: "(jsstring \<times> secret) list \<Rightarrow> options \<Rightarrow> error + keyring_object" where
  "keyring key_map opts =
     (case salt (assign_defaults opts) of
        None \<Rightarrow> Inl MissingSalt
      | Some s \<Rightarrow>
          (case keySizes (property_name (encryption (assign_defaults opts))) of
             None \<Rightarrow> Inl UnsupportedAlgorithm
           | Some keySize \<Rightarrow>
               (case normalizeKeys key_map keySize of
                  Inl e \<Rightarrow> Inl e
                | Inr ks \<Rightarrow>
                    (case validateKeyring ks of
                       Inl e \<Rightarrow> Inl e
                     | Inr _ \<Rightarrow> Inr \<lparr>keys = ks, merged = assign_defaults opts\<rparr>))))"

definition keyring_encrypt ::
  "keyring_object \<Rightarrow> (nat \<Rightarrow> byte) \<Rightarrow> jsvalue \<Rightarrow> error + string \<times> jsnumber \<times> string" where
  "keyring_encrypt kr rng message = encrypt (keys kr) (merged kr) rng message"

definition keyring_decrypt :: "keyring_object \<Rightarrow> string \<Rightarrow> jsvalue \<Rightarrow> error + jsstring" where
  "keyring_decrypt kr message keyringId =
     (case findKey (keys kr) keyringId of
        Inl e \<Rightarrow> Inl e
      | Inr k \<Rightarrow> decrypt k (merged kr) message)"

definition keyring_digest :: "keyring_object \<Rightarrow> jsvalue \<Rightarrow> error + string" where
  "keyring_digest kr message = sha1 message (salt (merged kr))"

definition keyring_currentId :: "keyring_object \<Rightarrow> error + jsnumber" where
  "keyring_currentId kr = (case currentKey (keys kr) of Inl e \<Rightarrow> Inl e | Inr k \<Rightarrow> Inr (id_num k))"

text \<open>The key that \<open>normalizeKeys\<close> builds from one entry of the key map.\<close>

definition key_of_entry :: "nat \<Rightarrow> jsstring \<times> secret \<Rightarrow> key" where
  "key_of_entry keySize e =
     \<lparr>id_num = parseInt10 (fst e),
      encryptionKey = drop keySize (keyBuffer (snd e)),
      signingKey = take keySize (keyBuffer (snd e))\<rparr>"

text \<open>
  The invariant that the data model asks of a registry: the ids are integers, here the
  safe ones, and no two keys have the same id.
\<close>

definition valid_registry :: "key list \<Rightarrow> bool" where
  "valid_registry ks = (list_all (\<lambda>k. is_safe (id_num k)) ks \<and> distinct (map id_num ks))"

text \<open>Bit \<open>j\<close> of a buffer, counted from the lowest bit of the first byte, flipped.\<close>

definition flip_bit_at :: "buffer \<Rightarrow> nat \<Rightarrow> buffer" where
  "flip_bit_at bs j = bs[j div 8 := bs ! (j div 8) XOR push_bit (j mod 8) 1]"

section \<open>The keys of the test suite\<close>

text \<open>
  The 128-bit secret of the tests and of the example script, and the keyring that the
  test "should returns digest using salt" builds from it: key id 0, salt "a", the
  default algorithm.
\<close>

definition secret_128 :: string where
  "secret_128 = ''uDiMcWVNTuz//naQ88sOcN+E40CyBRGzGTT7OkoBS6M=''"

definition signing_128 :: buffer where
  "signing_128 = [184, 56, 140, 113, 101, 77, 78, 236, 255, 254, 118, 144, 243, 203, 14, 112]"

definition encryption_128 :: buffer where
  "encryption_128 = [223, 132, 227, 64, 178, 5, 17, 179, 25, 52, 251, 58, 74, 1, 75, 163]"

definition digest_test_options :: options where
  "digest_test_options = \<lparr>encryption = Absent, salt = Some (str ''a'')\<rparr>"

definition digest_test_keyring :: keyring_object where
  "digest_test_keyring =
     \<lparr>keys = [\<lparr>id_num = Num 0, encryptionKey = encryption_128, signingKey = signing_128\<rparr>],
      merged = \<lparr>encryption = Defined ''aes-128-cbc'', salt = Some (str ''a'')\<rparr>\<rparr>"

text \<open>An entropy source that gives zeros.\<close>

definition zero_rng :: "nat \<Rightarrow> byte" where
  "zero_rng i = 0"

text \<open>The options of most tests: an empty salt and the default algorithm.\<close>

definition empty_salt_options :: options where
  "empty_salt_options = \<lparr>encryption = Absent, salt = Some []\<rparr>"

definition key_1 :: key where
  "key_1 = \<lparr>id_num = Num 1, encryptionKey = encryption_128, signingKey = signing_128\<rparr>"

text \<open>
  The run of the example script: key id 1, salt "salt-n-pepper", the plaintext
  "TESTE SECRETO", and the envelope and digest that the script prints. The envelope
  holds the tag, the initialization vector that the run drew, and the ciphertext.
\<close>

definition example_key_map :: "(jsstring \<times> secret) list" where
  "example_key_map = [(str ''1'', SecretBase64 secret_128)]"

definition example_options :: options where
  "example_options = \<lparr>encryption = Absent, salt = Some (str ''salt-n-pepper'')\<rparr>"

definition example_keyring :: keyring_object where
  "example_keyring =
     \<lparr>keys = [key_1],
      merged = \<lparr>encryption = Defined ''aes-128-cbc'', salt = Some (str ''salt-n-pepper'')\<rparr>\<rparr>"

definition example_envelope :: string where
  "example_envelope =
     ''VIJD6RYVVBdt13YOnCMomDkKSxnIq3nv6NuNVuXA7+ezioZuZbGyK1qOz7wsYOU9rCstGvLNbXenia99nUomdA==''"

definition example_tag :: buffer where
  "example_tag = [84, 130, 67, 233, 22, 21, 84, 23, 109, 215, 118, 14, 156, 35, 40, 152,
                  57, 10, 75, 25, 200, 171, 121, 239, 232, 219, 141, 86, 229, 192, 239, 231]"

definition example_iv :: buffer where
  "example_iv = [179, 138, 134, 110, 101, 177, 178, 43, 90, 142, 207, 188, 44, 96, 229, 61]"

definition example_ciphertext :: buffer where
  "example_ciphertext = [172, 43, 45, 26, 242, 205, 109, 119, 167, 137, 175, 125, 157, 74, 38, 116]"

text \<open>The entropy source of that run: it gave the initialization vector.\<close>

definition example_rng :: "nat \<Rightarrow> byte" where
  "example_rng i = (if i < 16 then example_iv ! i else 0)"

text \<open>
  A key map of two keys and the key map of three keys that it becomes when a key with
  the next id is added, with the keyrings built from them under an empty salt.
\<close>

definition secret_next :: string where
  "secret_next = ''AAECAwQFBgcICQoLDA0ODxAREhMUFRYXGBkaGxwdHh8=''"

definition key_2 :: key where
  "key_2 =
     \<lparr>id_num = Num 2,
      encryptionKey = [16, 17, 18, 19, 20, 21, 22, 23, 24, 25, 26, 27, 28, 29, 30, 31],
      signingKey = [0, 1, 2, 3, 4, 5, 6, 7, 8, 9, 10, 11, 12, 13, 14, 15]\<rparr>"

definition two_key_map :: "(jsstring \<times> secret) list" where
  "two_key_map = [(str ''0'', SecretBuffer (replicate 32 0)), (str ''1'', SecretBase64 secret_128)]"

definition three_key_map :: "(jsstring \<times> secret) list" where
  "three_key_map =
     [(str ''0'', SecretBuffer (replicate 32 0)), (str ''1'', SecretBase64 secret_128),
      (str ''2'', SecretBase64 secret_next)]"

definition key_0 :: key where
  "key_0 = \<lparr>id_num = Num 0, encryptionKey = replicate 16 0, signingKey = replicate 16 0\<rparr>"

definition two_keyring :: keyring_object where
  "two_keyring =
     \<lparr>keys = [key_0, key_1], merged = \<lparr>encryption = Defined ''aes-128-cbc'', salt = Some []\<rparr>\<rparr>"

definition three_keyring :: keyring_object where
  "three_keyring =
     \<lparr>keys = [key_0, key_1, key_2],
      merged = \<lparr>encryption = Defined ''aes-128-cbc'', salt = Some []\<rparr>\<rparr>"

text \<open>The keys of the tests for the two longer ciphers.\<close>

definition secret_192 :: string where
  "secret_192 = ''wtnnoK+5an+FPtxnkdUDrNw6fAq8yMkvCvzWpriLL9TQTR2WC/k+XPahYFPvCemG''"

definition secret_256 :: string where
  "secret_256 =
     ''XZXC+c7VUVGpyAceSUCOBbrp2fjJeeHwoaMQefgSCfp0/HABY5yJ7zRiLZbDlDZ7HytCRsvP4CxXt5hUqtx9Uw==''"

definition options_192 :: options where
  "options_192 = \<lparr>encryption = Defined ''aes-192-cbc'', salt = Some []\<rparr>"

definition options_256 :: options where
  "options_256 = \<lparr>encryption = Defined ''aes-256-cbc'', salt = Some []\<rparr>"

definition keyring_128 :: keyring_object where
  "keyring_128 =
     \<lparr>keys = [\<lparr>id_num = Num 0, encryptionKey = encryption_128, signingKey = signing_128\<rparr>],
      merged = \<lparr>encryption = Defined ''aes-128-cbc'', salt = Some []\<rparr>\<rparr>"

definition keyring_192 :: keyring_object where
  "keyring_192 =
     \<lparr>keys = [\<lparr>id_num = Num 0,
               encryptionKey = [10, 252, 214, 166, 184, 139, 47, 212, 208, 77, 29, 150, 11, 249,
                                62, 92, 246, 161, 96, 83, 239, 9, 233, 134],
               signingKey = [194, 217, 231, 160, 175, 185, 106, 127, 133, 62, 220, 103, 145, 213,
                             3, 172, 220, 58, 124, 10, 188, 200, 201, 47]\<rparr>],
      merged = options_192\<rparr>"

definition keyring_256 :: keyring_object where
  "keyring_256 =
     \<lparr>keys = [\<lparr>id_num = Num 0,
               encryptionKey = [116, 252, 112, 1, 99, 156, 137, 239, 52, 98, 45, 150, 195, 148,
                                54, 123, 31, 43, 66, 70, 203, 207, 224, 44, 87, 183, 152, 84, 170,
                                220, 125, 83],
               signingKey = [93, 149, 194, 249, 206, 213, 81, 81, 169, 200, 7, 30, 73, 64, 142, 5,
                             186, 233, 217, 248, 201, 121, 225, 240, 161, 163, 16, 121, 248, 18,
                             9, 250]\<rparr>],
      merged = options_256\<rparr>"

section \<open>Sizes of digests and authentication codes\<close>

lemma length_hex: "length (hex bs) = 2 * length bs"
  by (induction bs) (simp_all add: hex_def hex_byte_def)

lemma hex_digit_all: "\<forall>n \<in> set [0..15]. hex_digit n \<in> set ''0123456789abcdef''"
  by code_simp

lemma hex_digit_in: "0 \<le> n \<Longrightarrow> n < 16 \<Longrightarrow> hex_digit n \<in> set ''0123456789abcdef''"
  using hex_digit_all by simp

lemma set_hex_byte: "set (hex_byte b) \<subseteq> set ''0123456789abcdef''"
proof -
  define S where "S = set ''0123456789abcdef''"
  have "0 \<le> uint b div 16" "uint b div 16 < 16" "0 \<le> uint b mod 16" "uint b mod 16 < 16"
    using uint_lt2p[of b] by (simp_all add: div_int_pos_iff)
  then have "hex_digit (uint b div 16) \<in> S" "hex_digit (uint b mod 16) \<in> S"
    unfolding S_def by (simp_all only: hex_digit_in)
  then have "set (hex_byte b) \<subseteq> S"
    by (simp add: hex_byte_def)
  then show ?thesis by (simp only: S_def)
qed

lemma set_hex: "set (hex bs) \<subseteq> set ''0123456789abcdef''"
  using set_hex_byte by (auto simp: hex_def simp del: set_simps)

lemma length_sha1_hash: "length (sha1_hash m) = 20"
  by (simp add: sha1_hash_def be32_bytes_def split: prod.splits)

lemma length_sha256_round: "length s = 8 \<Longrightarrow> length (sha256_round s kw) = 8"
  by (cases "(s, kw)" rule: sha256_round.cases) simp_all

lemma length_foldl_sha256_round: "length s = 8 \<Longrightarrow> length (foldl sha256_round s kws) = 8"
  by (induction kws arbitrary: s) (simp_all add: length_sha256_round)

lemma length_sha256_block: "length hs = 8 \<Longrightarrow> length (sha256_block hs blk) = 8"
  by (simp add: sha256_block_def length_foldl_sha256_round)

lemma length_foldl_sha256_block: "length hs = 8 \<Longrightarrow> length (foldl sha256_block hs blks) = 8"
  by (induction blks arbitrary: hs) (simp_all add: length_sha256_block)

lemma length_concat_be32: "length (concat (map be32_bytes ws)) = 4 * length ws"
  by (induction ws) (simp_all add: be32_bytes_def)

lemma length_sha256_hash: "length (sha256_hash m) = 32"
  by (simp add: sha256_hash_def length_concat_be32 length_foldl_sha256_block sha256_init_def)

lemma length_hmac_sha256: "length (hmac_sha256 k m) = 32"
  by (simp add: hmac_sha256_def length_sha256_hash)

section \<open>Reading and writing numbers\<close>

lemma decimal_snoc: "decimal (ds @ [d]) = 10 * decimal ds + (uint d - 0x30)"
  by (simp add: decimal_def)

lemma uint_of_int_16: "0 \<le> x \<Longrightarrow> x < 65536 \<Longrightarrow> uint (of_int x :: 16 word) = x"
  by (simp add: uint_word_of_int take_bit_eq_mod)

lemma digit_char: "0 \<le> n \<Longrightarrow> n < 10 \<Longrightarrow> uint (of_int (0x30 + n) :: 16 word) = 0x30 + n"
  by (rule uint_of_int_16) simp_all

lemma is_digit_digit: "0 \<le> n \<Longrightarrow> n < 10 \<Longrightarrow> is_digit (of_int (0x30 + n))"
  unfolding is_digit_def by (simp only: digit_char) simp

lemma digit_value: "0 \<le> n \<Longrightarrow> n < 10 \<Longrightarrow> uint (of_int (0x30 + n) :: 16 word) - 0x30 = n"
  by (simp only: digit_char add_diff_cancel_left')

lemma digits_of_digits: "0 \<le> n \<Longrightarrow> list_all is_digit (digits_of n)"
proof (induction n rule: digits_of.induct)
  case (1 n)
  show ?case
  proof (cases "n < 10")
    case True
    have "digits_of n = [of_int (0x30 + n)]"
      using True by (subst digits_of.simps) (simp only: if_True)
    with is_digit_digit[OF 1(2) True] show ?thesis by simp
  next
    case False
    then have "0 \<le> n div 10" using 1(2) by simp
    with 1(1)[OF False] have ih: "list_all is_digit (digits_of (n div 10))" by simp
    have d: "is_digit (of_int (0x30 + n mod 10))"
      by (rule is_digit_digit) simp_all
    have "digits_of n = digits_of (n div 10) @ [of_int (0x30 + n mod 10)]"
      using False by (subst digits_of.simps) (simp only: if_False)
    with ih d show ?thesis by simp
  qed
qed

lemma decimal_digits_of: "0 \<le> n \<Longrightarrow> decimal (digits_of n) = n"
proof (induction n rule: digits_of.induct)
  case (1 n)
  show ?case
  proof (cases "n < 10")
    case True
    have "digits_of n = [] @ [of_int (0x30 + n)]"
      using True by (subst digits_of.simps) (simp only: if_True append_Nil)
    then have "decimal (digits_of n) = 10 * decimal [] + n"
      by (simp only: decimal_snoc digit_value[OF 1(2) True])
    then show ?thesis by (simp add: decimal_def)
  next
    case False
    then have "0 \<le> n div 10" using 1(2) by simp
    with 1(1)[OF False] have ih: "decimal (digits_of (n div 10)) = n div 10" by simp
    have m: "uint (of_int (0x30 + n mod 10) :: 16 word) - 0x30 = n mod 10"
      by (rule digit_value) simp_all
    have "digits_of n = digits_of (n div 10) @ [of_int (0x30 + n mod 10)]"
      using False by (subst digits_of.simps) (simp only: if_False)
    then have "decimal (digits_of n) = 10 * (n div 10) + n mod 10"
      by (simp only: decimal_snoc ih m)
    then show ?thesis by simp
  qed
qed

lemma digits_of_nonempty: "digits_of n \<noteq> []"
  by (subst digits_of.simps) (simp del: of_int_add)

lemma hd_digits_of: "0 \<le> n \<Longrightarrow> is_digit (hd (digits_of n))"
  using digits_of_digits[of n] digits_of_nonempty[of n]
  by (cases "digits_of n") simp_all

lemma is_digit_not_space: "is_digit c \<Longrightarrow> \<not> is_white_space c"
  by (auto simp: is_digit_def is_white_space_def)

lemma is_digit_not_sign: "is_digit c \<Longrightarrow> c \<noteq> 0x2D \<and> c \<noteq> 0x2B"
  by (auto simp: is_digit_def)

lemma takeWhile_all: "list_all P xs \<Longrightarrow> takeWhile P xs = xs"
  by (induction xs) simp_all

text \<open>Integers of at most 53 binary digits are Numbers as they are.\<close>

lemma bit_length_bound: "a < 2 ^ k \<Longrightarrow> bit_length a \<le> k"
proof (induction k arbitrary: a)
  case 0
  then have "a \<le> 0" by simp
  then show ?case by (subst bit_length.simps) simp
next
  case (Suc k)
  show ?case
  proof (cases "a \<le> 0")
    case True
    then show ?thesis by (subst bit_length.simps) simp
  next
    case False
    from Suc.prems have "a div 2 < 2 ^ k" by simp
    from Suc.IH[OF this] False show ?thesis by (subst bit_length.simps) simp
  qed
qed

lemma to_double_safe: "safe_integer n \<Longrightarrow> to_double n = Num n"
  using bit_length_bound[of "\<bar>n\<bar>" 53] by (simp add: to_double_def safe_integer_def Let_def)

lemma parseInt10_digits:
  assumes "list_all is_digit ds" "ds \<noteq> []"
  shows "parseInt10 ds = to_double (decimal ds)"
proof -
  obtain c cs where ds: "ds = c # cs" using assms(2) by (cases ds) auto
  have c: "is_digit c" using assms(1) ds by simp
  have "dropWhile is_white_space ds = ds"
    using is_digit_not_space[OF c] ds by simp
  moreover have "signed_digits ds = (1, ds)"
    using is_digit_not_sign[OF c] ds by simp
  ultimately show ?thesis
    using assms by (simp add: parseInt10_def takeWhile_all)
qed

lemma parseInt10_minus_digits:
  assumes "list_all is_digit ds" "ds \<noteq> []" "decimal ds \<noteq> 0"
  shows "parseInt10 (0x2D # ds) = to_double (- decimal ds)"
proof -
  have "\<not> is_white_space 0x2D" by (simp add: is_white_space_def)
  then show ?thesis
    using assms by (simp add: parseInt10_def takeWhile_all)
qed

text \<open>Reading back the numeral of a safe integer gives the integer.\<close>

lemma parseInt10_number_to_string:
  assumes "safe_integer n"
  shows "parseInt10 (number_to_string (Num n)) = Num n"
proof (cases "n < 0")
  case True
  then have p: "0 \<le> - n" "- n < 2 ^ 53" "- n \<noteq> 0"
    using assms by (simp_all add: safe_integer_def)
  have "parseInt10 (0x2D # digits_of (- n)) = to_double (- decimal (digits_of (- n)))"
    by (rule parseInt10_minus_digits[OF digits_of_digits[OF p(1)] digits_of_nonempty])
       (simp only: decimal_digits_of[OF p(1)] p(3) not_False_eq_True)
  then show ?thesis
    using True p(2) by (simp add: positive_to_string_def decimal_digits_of[OF p(1)]
        to_double_safe[OF assms])
next
  case False
  then have p: "0 \<le> n" "n < 2 ^ 53"
    using assms by (simp_all add: safe_integer_def)
  have "parseInt10 (digits_of n) = to_double (decimal (digits_of n))"
    by (rule parseInt10_digits[OF digits_of_digits[OF p(1)] digits_of_nonempty])
  then show ?thesis
    using False p(2) by (simp add: positive_to_string_def decimal_digits_of[OF p(1)]
        to_double_safe[OF assms])
qed

section \<open>Looking a key up\<close>

lemma num_eq_Num: "num_eq (Num m) (Num n) \<longleftrightarrow> m = n"
  by (simp add: num_eq_def)

lemma find_cong_set: "(\<And>x. x \<in> set xs \<Longrightarrow> P x = Q x) \<Longrightarrow> find P xs = find Q xs"
  by (induction xs) simp_all

text \<open>
  In a registry of safe integers the step \<open>parseInt(key.id)\<close> changes no id.
\<close>

lemma findKey_safe:
  assumes "\<forall>k \<in> set ks. \<exists>m. id_num k = Num m \<and> safe_integer m"
  shows "findKey ks v =
     (case find (\<lambda>k. num_eq (id_num k) (parseInt10 (to_string v))) ks of
        Some k \<Rightarrow> Inr k
      | None \<Rightarrow> Inl UnknownKeyId)"
proof -
  have "find (\<lambda>k. num_eq (parseInt10 (number_to_string (id_num k))) (parseInt10 (to_string v))) ks
      = find (\<lambda>k. num_eq (id_num k) (parseInt10 (to_string v))) ks"
  proof (rule find_cong_set)
    fix x assume "x \<in> set ks"
    with assms obtain m where "id_num x = Num m" "safe_integer m" by blast
    then show "num_eq (parseInt10 (number_to_string (id_num x))) (parseInt10 (to_string v))
        = num_eq (id_num x) (parseInt10 (to_string v))"
      by (simp only: parseInt10_number_to_string)
  qed
  then show ?thesis by (simp only: findKey_def)
qed

section \<open>Base64 decodes what it encodes\<close>

lemma b64_char_all:
  "\<forall>n \<in> set [0..63]. b64_char n \<noteq> CHR ''='' \<and> unbase64 (b64_char n) = Some n"
  by code_simp

lemma b64_char_ok:
  "0 \<le> n \<Longrightarrow> n < 64 \<Longrightarrow> b64_char n \<noteq> CHR ''='' \<and> unbase64 (b64_char n) = Some n"
  using b64_char_all by simp

lemma of_int_uint_byte: "(of_int (uint (a :: byte)) :: byte) = a"
  by simp

lemma uint_byte_range: "0 \<le> uint (a :: byte) \<and> uint a < 256"
  using uint_lt2p[of a] by simp

lemma divmod_combine:
  fixes q r n :: int
  assumes "0 \<le> r" "r < n"
  shows "(q * n + r) div n = q" "(q * n + r) mod n = r"
  using assms by (simp_all add: div_pos_pos_trivial)

lemma sextet_values:
  fixes x y z :: int
  assumes "0 \<le> x" "x < 256" "0 \<le> y" "y < 256" "0 \<le> z" "z < 256"
  shows "x div 4 * 4 + (x mod 4 * 16 + y div 16) div 16 = x"
    and "(x mod 4 * 16 + y div 16) mod 16 * 16 + (y mod 16 * 4 + z div 64) div 4 = y"
    and "(y mod 16 * 4 + z div 64) mod 4 * 64 + z mod 64 = z"
    and "x div 4 * 4 + (x mod 4 * 16) div 16 = x"
    and "(x mod 4 * 16 + y div 16) mod 16 * 16 + (y mod 16 * 4) div 4 = y"
proof -
  have y16: "0 \<le> y div 16" "y div 16 < 16" using assms by presburger+
  have z64: "0 \<le> z div 64" "z div 64 < 4" using assms by presburger+
  show "x div 4 * 4 + (x mod 4 * 16 + y div 16) div 16 = x"
    by (simp add: divmod_combine(1)[OF y16])
  show "(x mod 4 * 16 + y div 16) mod 16 * 16 + (y mod 16 * 4 + z div 64) div 4 = y"
    by (simp add: mod_pos_pos_trivial[OF y16] divmod_combine(1)[OF z64])
  show "(y mod 16 * 4 + z div 64) mod 4 * 64 + z mod 64 = z"
    by (simp add: mod_pos_pos_trivial[OF z64])
  show "x div 4 * 4 + (x mod 4 * 16) div 16 = x"
    by simp
  show "(x mod 4 * 16 + y div 16) mod 16 * 16 + (y mod 16 * 4) div 4 = y"
    by (simp add: mod_pos_pos_trivial[OF y16])
qed

lemma sextet_ranges:
  fixes x y z :: int
  assumes "0 \<le> x" "x < 256" "0 \<le> y" "y < 256" "0 \<le> z" "z < 256"
  shows "0 \<le> x div 4 \<and> x div 4 < 64"
    and "0 \<le> x mod 4 * 16 + y div 16 \<and> x mod 4 * 16 + y div 16 < 64"
    and "0 \<le> y mod 16 * 4 + z div 64 \<and> y mod 16 * 4 + z div 64 < 64"
    and "0 \<le> z mod 64 \<and> z mod 64 < 64"
    and "0 \<le> x mod 4 * 16 \<and> x mod 4 * 16 < 64"
    and "0 \<le> y mod 16 * 4 \<and> y mod 16 * 4 < 64"
proof -
  have x4: "0 \<le> x mod 4" "x mod 4 < 4" by simp_all
  have y16: "0 \<le> y div 16" "y div 16 < 16" using assms by simp_all
  have ym: "0 \<le> y mod 16" "y mod 16 < 16" by simp_all
  have z64: "0 \<le> z div 64" "z div 64 < 4" using assms by simp_all
  show "0 \<le> x div 4 \<and> x div 4 < 64" using assms by presburger
  show "0 \<le> x mod 4 * 16 + y div 16 \<and> x mod 4 * 16 + y div 16 < 64" using x4 y16 by linarith
  show "0 \<le> y mod 16 * 4 + z div 64 \<and> y mod 16 * 4 + z div 64 < 64" using ym z64 by linarith
  show "0 \<le> z mod 64 \<and> z mod 64 < 64" by simp
  show "0 \<le> x mod 4 * 16 \<and> x mod 4 * 16 < 64" using x4 by linarith
  show "0 \<le> y mod 16 * 4 \<and> y mod 16 * 4 < 64" using ym by linarith
qed

lemma decode_step:
  assumes "0 \<le> s1 \<and> s1 < 64" "0 \<le> s2 \<and> s2 < 64" "0 \<le> s3 \<and> s3 < 64" "0 \<le> s4 \<and> s4 < 64"
  shows "base64_decode (b64_char s1 # b64_char s2 # b64_char s3 # b64_char s4 # rest) =
         [of_int (s1 * 4 + s2 div 16), of_int (s2 mod 16 * 16 + s3 div 4), of_int (s3 mod 4 * 64 + s4)]
         @ base64_decode rest"
  using b64_char_ok[of s1] b64_char_ok[of s2] b64_char_ok[of s3] b64_char_ok[of s4] assms
  by (simp add: base64_decode_def map_filter_simps)

lemma decode_last2:
  assumes "0 \<le> s1 \<and> s1 < 64" "0 \<le> s2 \<and> s2 < 64"
  shows "base64_decode [b64_char s1, b64_char s2, CHR ''='', CHR ''=''] = [of_int (s1 * 4 + s2 div 16)]"
  using b64_char_ok[of s1] b64_char_ok[of s2] assms
  by (simp add: base64_decode_def map_filter_simps)

lemma decode_last3:
  assumes "0 \<le> s1 \<and> s1 < 64" "0 \<le> s2 \<and> s2 < 64" "0 \<le> s3 \<and> s3 < 64"
  shows "base64_decode [b64_char s1, b64_char s2, b64_char s3, CHR ''=''] =
         [of_int (s1 * 4 + s2 div 16), of_int (s2 mod 16 * 16 + s3 div 4)]"
  using b64_char_ok[of s1] b64_char_ok[of s2] b64_char_ok[of s3] assms
  by (simp add: base64_decode_def map_filter_simps)

lemma base64_decode_Nil: "base64_decode [] = []"
  by (simp add: base64_decode_def map_filter_simps)

lemma base64_roundtrip: "base64_decode (base64_encode bs) = bs"
proof (induction bs rule: base64_encode.induct)
  case 1
  show ?case by (simp add: base64_decode_Nil)
next
  case (2 a)
  note r = uint_byte_range[of a]
  from r have x: "0 \<le> uint a" "uint a < 256" by simp_all
  note s = sextet_ranges(1,5)[OF x x x]
  note v = sextet_values(4)[OF x x x]
  show ?case
    by (simp only: base64_encode.simps decode_last2[OF s] v of_int_uint_byte)
next
  case (3 a b)
  from uint_byte_range[of a] have x: "0 \<le> uint a" "uint a < 256" by simp_all
  from uint_byte_range[of b] have y: "0 \<le> uint b" "uint b < 256" by simp_all
  note s = sextet_ranges(1,2,6)[OF x y y]
  note v = sextet_values(1,5)[OF x y y]
  show ?case
    by (simp only: base64_encode.simps decode_last3[OF s] v of_int_uint_byte)
next
  case (4 a b c bs)
  from uint_byte_range[of a] have x: "0 \<le> uint a" "uint a < 256" by simp_all
  from uint_byte_range[of b] have y: "0 \<le> uint b" "uint b < 256" by simp_all
  from uint_byte_range[of c] have z: "0 \<le> uint c" "uint c < 256" by simp_all
  note s = sextet_ranges(1,2,3,4)[OF x y z]
  note v = sextet_values(1,2,3)[OF x y z]
  show ?case
    by (simp only: base64_encode.simps append_Cons append_Nil decode_step[OF s] v of_int_uint_byte "4.IH")
qed

section \<open>The inverse cipher undoes the cipher\<close>

lemma byte_cases:
  assumes "\<forall>n \<in> set [0..255]. P (of_int n :: byte)"
  shows "P b"
proof -
  have "uint b \<in> set [0..255]" using uint_byte_range[of b] by simp
  with assms have "P (of_int (uint b))" by blast
  then show ?thesis by simp
qed

lemma inv_sbox_sbox_all: "\<forall>n \<in> set [0..255]. inv_sbox (sbox (of_int n)) = of_int n"
  by code_simp

lemma inv_sbox_sbox: "inv_sbox (sbox b) = b"
  by (rule byte_cases[where P = "\<lambda>b. inv_sbox (sbox b) = b"]) (rule inv_sbox_sbox_all)

lemmas xor_ac = xor.assoc xor.commute xor.left_commute

lemma xor_left_cancel: "(a :: byte) XOR (a XOR b) = b"
  by (simp flip: xor.assoc)

lemma xtime_xor: "xtime (a XOR b) = xtime a XOR xtime b"
  by (simp add: xtime_def push_bit_xor bit_xor_iff xor_ac xor_left_cancel)

lemma inv_mix_column_mix_column: "inv_mix_column (mix_column [a, b, c, d]) = [a, b, c, d]"
  by (simp add: mul3_def mul9_def mul11_def mul13_def mul14_def xtime_xor xor_ac xor_left_cancel)

lemma block_list:
  assumes "length (s :: 'a list) = 16"
  obtains x0 x1 x2 x3 x4 x5 x6 x7 x8 x9 x10 x11 x12 x13 x14 x15
  where "s = [x0, x1, x2, x3, x4, x5, x6, x7, x8, x9, x10, x11, x12, x13, x14, x15]"
proof -
  from assms have "\<exists>x0 x1 x2 x3 x4 x5 x6 x7 x8 x9 x10 x11 x12 x13 x14 x15.
    s = [x0, x1, x2, x3, x4, x5, x6, x7, x8, x9, x10, x11, x12, x13, x14, x15]"
    by (simp add: eval_nat_numeral length_Suc_conv) blast
  then show ?thesis using that by blast
qed

lemma inv_shift_rows_shift_rows: "length s = 16 \<Longrightarrow> inv_shift_rows (shift_rows s) = s"
  by (erule block_list) (simp add: shift_rows_def inv_shift_rows_def)

lemma inv_sub_bytes_sub_bytes: "inv_sub_bytes (sub_bytes s) = s"
  by (simp add: sub_bytes_def inv_sub_bytes_def inv_sbox_sbox map_idI)

lemma inv_mix_columns_mix_columns: "length s = 16 \<Longrightarrow> inv_mix_columns (mix_columns s) = s"
  by (erule block_list)
     (simp add: mix_columns_def inv_mix_columns_def inv_mix_column_mix_column[simplified])

lemma xor_bytes_cancel: "length k = length s \<Longrightarrow> xor_bytes (xor_bytes s k) k = s"
proof (induction s arbitrary: k)
  case Nil
  then show ?case by (simp add: xor_bytes_def)
next
  case (Cons x xs)
  then obtain y ys where k: "k = y # ys" by (cases k) auto
  with Cons have "xor_bytes (xor_bytes xs ys) ys = xs" by simp
  then show ?case
    by (simp add: k xor_bytes_def xor_ac xor_left_cancel)
qed

lemma length_xor_bytes: "length (xor_bytes s k) = min (length s) (length k)"
  by (simp add: xor_bytes_def)

lemma length_shift_rows: "length (shift_rows s) = 16"
  by (simp add: shift_rows_def)

lemma length_sub_bytes: "length (sub_bytes s) = length s"
  by (simp add: sub_bytes_def)

lemma length_mix_columns: "length s = 16 \<Longrightarrow> length (mix_columns s) = 16"
  by (erule block_list) (simp add: mix_columns_def)

lemma length_enc_round: "length s = 16 \<Longrightarrow> length k = 16 \<Longrightarrow> length (enc_round s k) = 16"
  by (simp add: enc_round_def length_xor_bytes length_mix_columns length_shift_rows)

lemma length_foldl_enc_round:
  "length s = 16 \<Longrightarrow> \<forall>k \<in> set ks. length k = 16 \<Longrightarrow> length (foldl enc_round s ks) = 16"
  by (induction ks arbitrary: s) (simp_all add: length_enc_round)

lemma aes_rounds_snoc: "aes_rounds s (ks @ [k]) = enc_final (foldl enc_round s ks) k"
proof (induction ks arbitrary: s)
  case Nil
  show ?case by simp
next
  case (Cons a ks)
  then show ?case by (cases ks) simp_all
qed

lemma aes_inv_rounds_snoc: "aes_inv_rounds s (ks @ [k]) = dec_final (foldl dec_round s ks) k"
proof (induction ks arbitrary: s)
  case Nil
  show ?case by simp
next
  case (Cons a ks)
  then show ?case by (cases ks) simp_all
qed

lemma dec_round_undoes:
  assumes "length s = 16" "length k = 16"
  shows "dec_round (shift_rows (sub_bytes (enc_round s k))) k = shift_rows (sub_bytes s)"
proof -
  have l: "length (enc_round s k) = 16" by (rule length_enc_round[OF assms])
  have "dec_round (shift_rows (sub_bytes (enc_round s k))) k
        = inv_mix_columns (xor_bytes (enc_round s k) k)"
    by (simp add: dec_round_def inv_shift_rows_shift_rows length_sub_bytes l inv_sub_bytes_sub_bytes)
  also have "xor_bytes (enc_round s k) k = mix_columns (shift_rows (sub_bytes s))"
    unfolding enc_round_def
    by (rule xor_bytes_cancel) (simp add: assms length_mix_columns length_shift_rows)
  also have "inv_mix_columns (mix_columns (shift_rows (sub_bytes s))) = shift_rows (sub_bytes s)"
    by (rule inv_mix_columns_mix_columns) (rule length_shift_rows)
  finally show ?thesis .
qed

lemma foldl_dec_round_undoes:
  assumes "length s = 16" "\<forall>k \<in> set ks. length k = 16"
  shows "foldl dec_round (shift_rows (sub_bytes (foldl enc_round s ks))) (rev ks)
         = shift_rows (sub_bytes s)"
  using assms
proof (induction ks arbitrary: s rule: rev_induct)
  case Nil
  show ?case by simp
next
  case (snoc k ks)
  have l: "length (foldl enc_round s ks) = 16"
    using snoc.prems by (simp add: length_foldl_enc_round)
  have k: "length k = 16" using snoc.prems by simp
  show ?case
    using snoc.IH[of s] snoc.prems
    by (simp add: dec_round_undoes[OF l k])
qed

lemma dec_final_undoes:
  assumes "length s = 16" "length k = 16"
  shows "dec_final (shift_rows (sub_bytes s)) k = xor_bytes s k"
  by (simp add: dec_final_def inv_shift_rows_shift_rows length_sub_bytes assms inv_sub_bytes_sub_bytes)

text \<open>With round keys of 16 bytes each, the inverse cipher undoes the cipher on a block.\<close>

lemma aes_inv_cipher_cipher:
  assumes "length blk = 16" "\<forall>k \<in> set rks. length k = 16"
  shows "aes_inv_cipher (rev rks) (aes_cipher rks blk) = blk"
proof (cases rks)
  case Nil
  then show ?thesis by simp
next
  case (Cons k0 ks)
  have k0: "length k0 = 16" using assms(2) Cons by simp
  have s0: "length (xor_bytes blk k0) = 16" by (simp add: length_xor_bytes assms(1) k0)
  show ?thesis
  proof (cases ks rule: rev_cases)
    case Nil
    with Cons show ?thesis
      by (simp add: xor_bytes_cancel assms(1) k0)
  next
    case (snoc mid kn)
    have kn: "length kn = 16" and mid: "\<forall>k \<in> set mid. length k = 16"
      using assms(2) Cons snoc by simp_all
    define S where "S = foldl enc_round (xor_bytes blk k0) mid"
    have S: "length S = 16" unfolding S_def by (rule length_foldl_enc_round[OF s0 mid])
    have c: "aes_cipher rks blk = xor_bytes (shift_rows (sub_bytes S)) kn"
      by (simp add: Cons snoc aes_rounds_snoc enc_final_def S_def)
    have "aes_inv_cipher (rev rks) (aes_cipher rks blk)
          = aes_inv_rounds (xor_bytes (aes_cipher rks blk) kn) (rev mid @ [k0])"
      by (simp add: Cons snoc)
    also have "xor_bytes (aes_cipher rks blk) kn = shift_rows (sub_bytes S)"
      unfolding c by (rule xor_bytes_cancel) (simp add: kn length_shift_rows)
    also have "aes_inv_rounds (shift_rows (sub_bytes S)) (rev mid @ [k0])
          = dec_final (foldl dec_round (shift_rows (sub_bytes S)) (rev mid)) k0"
      by (rule aes_inv_rounds_snoc)
    also have "foldl dec_round (shift_rows (sub_bytes S)) (rev mid)
          = shift_rows (sub_bytes (xor_bytes blk k0))"
      unfolding S_def by (rule foldl_dec_round_undoes[OF s0 mid])
    also have "dec_final (shift_rows (sub_bytes (xor_bytes blk k0))) k0 = xor_bytes (xor_bytes blk k0) k0"
      by (rule dec_final_undoes[OF s0 k0])
    also have "\<dots> = blk"
      by (rule xor_bytes_cancel) (simp add: assms(1) k0)
    finally show ?thesis .
  qed
qed

lemma length_aes_rounds:
  "length s = 16 \<Longrightarrow> \<forall>k \<in> set ks. length k = 16 \<Longrightarrow> length (aes_rounds s ks) = 16"
proof (induction s ks rule: aes_rounds.induct)
  case (1 s)
  then show ?case by simp
next
  case (2 s k)
  then show ?case by (simp add: enc_final_def length_xor_bytes length_shift_rows)
next
  case (3 s k k' ks)
  then show ?case by (simp add: length_enc_round)
qed

lemma length_aes_cipher:
  "length blk = 16 \<Longrightarrow> \<forall>k \<in> set rks. length k = 16 \<Longrightarrow> length (aes_cipher rks blk) = 16"
  by (cases rks) (simp_all add: length_aes_rounds length_xor_bytes)

section \<open>Blocks\<close>

lemma concat_chunks: "concat (chunks n xs) = xs"
  by (induction n xs rule: chunks.induct) simp_all

lemma chunks_append:
  assumes "length c = n" "0 < n"
  shows "chunks n (c @ rest) = c # chunks n rest"
proof -
  from assms obtain x xs where c: "c = x # xs" by (cases c) auto
  have "take n (c @ rest) = c" "drop n (c @ rest) = rest"
    using assms(1) by simp_all
  then show ?thesis
    using assms(2) unfolding c by (simp del: take_Suc_Cons drop_Suc_Cons)
qed

lemma set_chunks:
  "0 < n \<Longrightarrow> n dvd length xs \<Longrightarrow> c \<in> set (chunks n xs) \<Longrightarrow> length c = n"
proof (induction n xs rule: chunks.induct)
  case (1 n)
  then show ?case by simp
next
  case (2 n x xs)
  from 2(2,3) have le: "n \<le> length (x # xs)" by (auto dest: dvd_imp_le)
  from 2(3) le have "n dvd length (drop n (x # xs))"
    by (metis dvd_diff_nat dvd_refl length_drop)
  with 2 le show ?case by auto
qed

lemma length_chunks:
  "0 < n \<Longrightarrow> n dvd length xs \<Longrightarrow> length (chunks n xs) = length xs div n"
proof (induction n xs rule: chunks.induct)
  case (1 n)
  then show ?case by simp
next
  case (2 n x xs)
  from 2(2,3) have le: "n \<le> length (x # xs)" by (auto dest: dvd_imp_le)
  from 2(3) le have d: "n dvd length (drop n (x # xs))"
    by (metis dvd_diff_nat dvd_refl length_drop)
  have "length (chunks n (x # xs)) = Suc (length (drop n (x # xs)) div n)"
    using 2(1)[OF _ 2(2) d] 2(2) by simp
  also have "\<dots> = length (x # xs) div n"
    using le 2(2) by (simp add: le_div_geq)
  finally show ?case .
qed

section \<open>The round keys\<close>

lemma foldl_upt_invariant:
  assumes "P a w" "a \<le> b" "\<And>i w. a \<le> i \<Longrightarrow> i < b \<Longrightarrow> P i w \<Longrightarrow> P (Suc i) (f w i)"
  shows "P b (foldl f w [a..<b])"
  using assms(2,3)
proof (induction b)
  case 0
  with assms(1) show ?case by simp
next
  case (Suc b)
  show ?case
  proof (cases "a = Suc b")
    case True
    with assms(1) show ?thesis by simp
  next
    case False
    with Suc.prems have le: "a \<le> b" by simp
    have "P b (foldl f w [a..<b])"
      by (rule Suc.IH[OF le]) (simp add: Suc.prems(2))
    then have "P (Suc b) (f (foldl f w [a..<b]) b)"
      by (rule Suc.prems(2)[OF le lessI])
    with le show ?thesis by simp
  qed
qed

definition words_upto :: "nat \<Rightarrow> buffer list \<Rightarrow> bool" where
  "words_upto i w = (length w = i \<and> (\<forall>x \<in> set w. length x = 4))"

lemma key_expansion_step_words:
  assumes "words_upto i w" "0 < nk" "nk \<le> i"
  shows "words_upto (Suc i) (key_expansion_step nk w i)"
proof -
  from assms have i: "i - nk < length w" "i - 1 < length w" by (simp_all add: words_upto_def)
  then have a: "length (w ! (i - nk)) = 4" and b: "length (w ! (i - 1)) = 4"
    using assms(1) by (simp_all add: words_upto_def)
  have "length (xor_bytes (w ! (i - nk))
            (if i mod nk = 0 then xor_bytes (map sbox (rot_word (w ! (i - 1)))) (rcon (i div nk))
             else if nk > 6 \<and> i mod nk = 4 then map sbox (w ! (i - 1))
             else w ! (i - 1))) = 4"
    using a b by (simp add: xor_bytes_def rot_word_def rcon_def)
  then show ?thesis
    using assms(1) by (simp add: words_upto_def key_expansion_step_def)
qed

lemma key_expansion_words:
  assumes "4 dvd length key" "0 < length key"
  shows "words_upto (4 * (length key div 4 + 7)) (key_expansion key)"
proof -
  define nk where "nk = length key div 4"
  from assms have "4 \<le> length key" by (auto dest: dvd_imp_le)
  then have nk: "0 < nk" unfolding nk_def by simp
  have init: "words_upto nk (chunks 4 key)"
    using assms(1) by (auto simp: words_upto_def nk_def length_chunks set_chunks)
  have "words_upto (4 * (nk + 7)) (foldl (key_expansion_step nk) (chunks 4 key) [nk..<4 * (nk + 7)])"
  proof (rule foldl_upt_invariant[where P = words_upto, OF init])
    show "nk \<le> 4 * (nk + 7)" by simp
  next
    fix i w
    assume "nk \<le> i" "i < 4 * (nk + 7)" "words_upto i w"
    then show "words_upto (Suc i) (key_expansion_step nk w i)"
      using key_expansion_step_words nk by blast
  qed
  then show ?thesis by (simp add: key_expansion_def nk_def)
qed

lemma length_concat_words:
  assumes "length c = 4" "\<forall>x \<in> set c. length x = (4::nat)"
  shows "length (concat c) = 16"
proof -
  from assms(1) obtain a b c' d where "c = [a, b, c', d]"
    by (auto simp: eval_nat_numeral length_Suc_conv)
  with assms(2) show ?thesis by simp
qed

lemma round_keys_blocks:
  assumes "4 dvd length key" "0 < length key" "k \<in> set (round_keys key)"
  shows "length k = 16"
proof -
  note w = key_expansion_words[OF assms(1,2), unfolded words_upto_def]
  from assms(3) obtain c where c: "c \<in> set (chunks 4 (key_expansion key))" "k = concat c"
    by (auto simp: round_keys_def)
  have d: "4 dvd length (key_expansion key)" using w by simp
  have "length c = 4" by (rule set_chunks[OF _ d c(1)]) simp
  moreover have "\<forall>x \<in> set c. length x = 4"
  proof
    fix x assume "x \<in> set c"
    with c(1) have "x \<in> set (concat (chunks 4 (key_expansion key)))" by auto
    then show "length x = 4" using w by (simp add: concat_chunks)
  qed
  ultimately show ?thesis unfolding c(2) by (rule length_concat_words)
qed

section \<open>CBC decryption undoes CBC encryption\<close>

definition aes_key :: "buffer \<Rightarrow> bool" where
  "aes_key key = (length key = 16 \<or> length key = 24 \<or> length key = 32)"

lemma aes_key_round_keys:
  assumes "aes_key key"
  shows "\<forall>k \<in> set (round_keys key). length k = 16"
proof -
  from assms have "4 dvd length key" "0 < length key"
    by (auto simp: aes_key_def)
  then show ?thesis using round_keys_blocks by blast
qed

lemma aes_decrypt_encrypt_block:
  "aes_key key \<Longrightarrow> length blk = 16 \<Longrightarrow> aes_decrypt_block key (aes_encrypt_block key blk) = blk"
  by (simp add: aes_decrypt_block_def aes_encrypt_block_def aes_inv_cipher_cipher aes_key_round_keys)

lemma length_aes_encrypt_block:
  "aes_key key \<Longrightarrow> length blk = 16 \<Longrightarrow> length (aes_encrypt_block key blk) = 16"
  by (simp add: aes_encrypt_block_def length_aes_cipher aes_key_round_keys)

lemma length_cbc_encrypt_blocks:
  assumes "aes_key key"
  shows "length prev = 16 \<Longrightarrow> \<forall>p \<in> set ps. length p = 16 \<Longrightarrow>
         length (cbc_encrypt_blocks key prev ps) = 16 * length ps"
proof (induction ps arbitrary: prev)
  case Nil
  show ?case by simp
next
  case (Cons p ps)
  have x: "length (xor_bytes p prev) = 16" using Cons.prems by (simp add: length_xor_bytes)
  have c: "length (aes_encrypt_block key (xor_bytes p prev)) = 16"
    by (rule length_aes_encrypt_block[OF assms x])
  from Cons.IH[OF c] Cons.prems c show ?case by simp
qed

lemma cbc_blocks_roundtrip:
  assumes "aes_key key"
  shows "length prev = 16 \<Longrightarrow> \<forall>p \<in> set ps. length p = 16 \<Longrightarrow>
         cbc_decrypt_blocks key prev (chunks 16 (cbc_encrypt_blocks key prev ps)) = concat ps"
proof (induction ps arbitrary: prev)
  case Nil
  show ?case by simp
next
  case (Cons p ps)
  define c where "c = aes_encrypt_block key (xor_bytes p prev)"
  have p: "length p = 16" using Cons.prems by simp
  have x: "length (xor_bytes p prev) = 16" using Cons.prems by (simp add: length_xor_bytes)
  have c: "length c = 16" unfolding c_def by (rule length_aes_encrypt_block[OF assms x])
  have d: "aes_decrypt_block key c = xor_bytes p prev"
    unfolding c_def by (rule aes_decrypt_encrypt_block[OF assms x])
  have "cbc_decrypt_blocks key prev (chunks 16 (cbc_encrypt_blocks key prev (p # ps)))
        = cbc_decrypt_blocks key prev (c # chunks 16 (cbc_encrypt_blocks key c ps))"
    by (simp add: c_def[symmetric] chunks_append[OF c])
  also have "\<dots> = xor_bytes (xor_bytes p prev) prev @ concat ps"
    using Cons.IH[OF c] Cons.prems by (simp add: d)
  also have "xor_bytes (xor_bytes p prev) prev = p"
    by (rule xor_bytes_cancel) (simp add: p Cons.prems)
  finally show ?case by simp
qed

lemma pad_length: "16 - length (m :: buffer) mod 16 \<in> {1..16}"
  by simp

lemma length_pkcs7_pad: "length (pkcs7_pad m) = length m + (16 - length m mod 16)"
  by (simp add: pkcs7_pad_def)

lemma pad_total: "16 dvd (n::nat) + (16 - n mod 16)"
proof -
  have "n mod 16 \<le> 16" by simp
  then have "(n + (16 - n mod 16)) mod 16 = (n + 16 - n mod 16) mod 16" by simp
  also have "n + 16 - n mod 16 = 16 * (n div 16) + 16"
    by (metis add.commute add_diff_cancel_left' div_mult_mod_eq mult.commute add.assoc
        Nat.add_diff_assoc2 mod_less_eq_dividend)
  finally show ?thesis by (simp add: dvd_eq_mod_eq_0)
qed

lemma pkcs7_pad_blocks: "16 dvd length (pkcs7_pad m)" "pkcs7_pad m \<noteq> []"
proof -
  show "16 dvd length (pkcs7_pad m)"
    unfolding length_pkcs7_pad by (rule pad_total)
  show "pkcs7_pad m \<noteq> []" by (simp add: pkcs7_pad_def)
qed

lemma unat_pad_byte:
  assumes "n \<le> 16"
  shows "unat (of_int (int n) :: byte) = n"
proof -
  have "(of_int (int n) :: byte) = of_nat n" by simp
  moreover have "unat (of_nat n :: byte) = n"
    using assms by (simp add: unat_of_nat take_bit_eq_mod)
  ultimately show ?thesis by (simp only:)
qed

lemma pkcs7_unpad_pad: "pkcs7_unpad (pkcs7_pad m) = Some m"
proof -
  define n where "n = 16 - length m mod 16"
  have n: "0 < n" "n \<le> 16" unfolding n_def by simp_all
  define v :: byte where "v = of_int (int n)"
  have u: "unat v = n" unfolding v_def by (rule unat_pad_byte[OF n(2)])
  have pad: "pkcs7_pad m = m @ replicate n v" by (simp add: pkcs7_pad_def n_def v_def)
  have last: "last (m @ replicate n v) = v" using n(1) by (cases n) simp_all
  have ne: "m @ replicate n v \<noteq> []" using n(1) by simp
  have "\<not> list_ex (\<lambda>b. b \<noteq> v) (drop (length (m @ replicate n v) - n) (m @ replicate n v))"
    by (simp add: list_ex_iff)
  then show ?thesis
    unfolding pad pkcs7_unpad_def using n by (simp only: last u ne if_False) simp
qed

lemma cbc_decrypt_encrypt:
  assumes "aes_key key" "length iv = 16"
  shows "cbc_decrypt key iv (cbc_encrypt key iv m) = Some m"
proof -
  define ps where "ps = chunks 16 (pkcs7_pad m)"
  have b: "\<forall>p \<in> set ps. length p = 16"
    unfolding ps_def using set_chunks[OF _ pkcs7_pad_blocks(1)[of m]] by simp
  have l: "length (cbc_encrypt key iv m) = 16 * length ps"
    unfolding cbc_encrypt_def ps_def[symmetric] by (rule length_cbc_encrypt_blocks[OF assms b])
  have "ps \<noteq> []" unfolding ps_def using pkcs7_pad_blocks(2)[of m] by (cases "pkcs7_pad m") simp_all
  with l have ne: "cbc_encrypt key iv m \<noteq> []" by (cases ps) auto
  have "cbc_decrypt_blocks key iv (chunks 16 (cbc_encrypt key iv m)) = pkcs7_pad m"
    unfolding cbc_encrypt_def ps_def[symmetric]
    using cbc_blocks_roundtrip[OF assms b] by (simp add: ps_def concat_chunks)
  then show ?thesis
    using ne l by (simp add: cbc_decrypt_def pkcs7_unpad_pad)
qed

section \<open>Comparing signatures\<close>

lemma xor_zero_iff: "(a :: byte) XOR b = 0 \<longleftrightarrow> a = b"
proof
  assume "a XOR b = 0"
  then have "a XOR (a XOR b) = a" by simp
  then show "a = b" by (simp only: xor_left_cancel)
next
  assume "a = b"
  then show "a XOR b = 0" by simp
qed

lemma foldl_or_zero:
  "foldl (\<lambda>acc i. acc OR f i) (a :: byte) is = 0 \<longleftrightarrow> a = 0 \<and> (\<forall>i \<in> set is. f i = 0)"
  by (induction "is" arbitrary: a) (auto simp: or_eq_0_iff)

text \<open>The accumulating comparison is equality of the two buffers.\<close>

lemma verifySignature_iff: "verifySignature expected actual \<longleftrightarrow> expected = actual"
proof (cases "length expected = length actual")
  case False
  then show ?thesis by (auto simp: verifySignature_def)
next
  case True
  have "(\<forall>i \<in> set [0..<length expected]. expected ! i XOR actual ! i = 0)
        \<longleftrightarrow> (\<forall>i < length expected. expected ! i = actual ! i)"
    by (auto simp: xor_zero_iff)
  also have "\<dots> \<longleftrightarrow> expected = actual"
    using True by (auto simp: list_eq_iff_nth_eq)
  finally show ?thesis
    using True by (simp add: verifySignature_def foldl_or_zero)
qed

section \<open>The current key\<close>

definition newer :: "key \<Rightarrow> key \<Rightarrow> key" where
  "newer a b = (if num_gt (id_num a) (id_num b) then a else b)"

lemma currentKey_Cons: "currentKey (k # ks) = Inr (foldl newer k ks)"
  by (simp add: newer_def[abs_def])

lemma foldl_newer_mem: "foldl newer k ks \<in> set (k # ks)"
proof (induction ks arbitrary: k)
  case Nil
  show ?case by simp
next
  case (Cons a ks)
  from Cons[of "newer k a"] show ?case by (auto simp: newer_def split: if_splits)
qed

text \<open>On Numbers other than NaN, "not greater" is a total preorder.\<close>

lemma num_gt_irrefl: "\<not> num_gt a a"
  by (cases a) (simp_all add: num_gt_def)

lemma num_gt_asym: "num_gt a b \<Longrightarrow> \<not> num_gt b a"
  by (cases a; cases b) (simp_all add: num_gt_def)

lemma num_gt_total: "a \<noteq> NaN \<Longrightarrow> b \<noteq> NaN \<Longrightarrow> \<not> num_gt a b \<Longrightarrow> \<not> num_gt b a \<Longrightarrow> num_eq a b"
  by (cases a; cases b) (simp_all add: num_gt_def num_eq_def)

lemma num_le_trans:
  "b \<noteq> NaN \<Longrightarrow> \<not> num_gt a b \<Longrightarrow> \<not> num_gt b c \<Longrightarrow> \<not> num_gt a c"
  by (cases a; cases b; cases c) (simp_all add: num_gt_def)

lemma num_gt_Num: "num_gt (Num m) (Num n) \<longleftrightarrow> n < m"
  by (simp add: num_gt_def)

lemma newer_id:
  assumes "id_num a \<noteq> NaN" "id_num b \<noteq> NaN"
  shows "\<not> num_gt (id_num a) (id_num (newer a b))" "\<not> num_gt (id_num b) (id_num (newer a b))"
    "id_num (newer a b) \<noteq> NaN"
  using assms by (auto simp: newer_def num_gt_irrefl dest: num_gt_asym)

lemma foldl_newer_max:
  assumes "\<forall>x \<in> set (k # ks). id_num x \<noteq> NaN" "x \<in> set (k # ks)"
  shows "\<not> num_gt (id_num x) (id_num (foldl newer k ks))"
  using assms
proof (induction ks arbitrary: k x)
  case Nil
  then show ?case by (simp add: num_gt_irrefl)
next
  case (Cons a ks)
  from Cons.prems(1) have ka: "id_num k \<noteq> NaN" "id_num a \<noteq> NaN" by auto
  note n3 = newer_id[OF ka]
  have n: "\<forall>x \<in> set (newer k a # ks). id_num x \<noteq> NaN"
    using Cons.prems(1) n3(3) by auto
  have top: "\<not> num_gt (id_num (newer k a)) (id_num (foldl newer (newer k a) ks))"
    by (rule Cons.IH[OF n]) simp
  show ?case
  proof (cases "x \<in> set ks")
    case True
    then have "x \<in> set (newer k a # ks)" by simp
    from Cons.IH[OF n this] show ?thesis by simp
  next
    case False
    with Cons.prems(2) have "x = k \<or> x = a" by auto
    then have "\<not> num_gt (id_num x) (id_num (newer k a))" using n3(1,2) by auto
    from num_le_trans[OF n3(3) this top] show ?thesis by simp
  qed
qed

lemma find_unique:
  assumes "distinct (map f xs)" "x \<in> set xs"
  shows "find (\<lambda>y. f y = f x) xs = Some x"
  using assms
proof (induction xs)
  case Nil
  then show ?case by simp
next
  case (Cons a xs)
  show ?case
  proof (cases "a = x")
    case True
    then show ?thesis by simp
  next
    case False
    with Cons.prems have "x \<in> set xs" "f a \<noteq> f x" by (auto simp: image_iff)
    with Cons show ?thesis by simp
  qed
qed

text \<open>
  In a registry of distinct safe integers, looking the id of a key up gives this key.
\<close>

lemma findKey_own_id:
  assumes "\<forall>k \<in> set ks. \<exists>m. id_num k = Num m \<and> safe_integer m"
    "distinct (map id_num ks)" "k \<in> set ks" "id_num k = Num n"
  shows "findKey ks (JNumber (Num n)) = Inr k"
proof -
  from assms(1,3,4) have n: "safe_integer n" by auto
  have "find (\<lambda>y. num_eq (id_num y) (Num n)) ks = find (\<lambda>y. id_num y = id_num k) ks"
  proof (rule find_cong_set)
    fix x assume "x \<in> set ks"
    with assms(1) obtain m where "id_num x = Num m" by blast
    then show "num_eq (id_num x) (Num n) = (id_num x = id_num k)"
      by (simp add: assms(4) num_eq_Num)
  qed
  also have "\<dots> = Some k" by (rule find_unique[OF assms(2,3)])
  finally have "find (\<lambda>y. num_eq (id_num y) (Num n)) ks = Some k" .
  then show ?thesis
    by (simp only: findKey_safe[OF assms(1)] to_string.simps parseInt10_number_to_string[OF n]
        option.case)
qed

section \<open>Construction\<close>

lemma normalizeKeys_ok:
  "\<forall>e \<in> set key_map. length (keyBuffer (snd e)) = n * 2 \<Longrightarrow>
   normalizeKeys key_map (Bytes n) = Inr (map (key_of_entry n) key_map)"
proof (induction key_map)
  case Nil
  show ?case by simp
next
  case (Cons e es)
  obtain i v where e: "e = (i, v)" by (cases e)
  from Cons show ?case by (simp add: e key_of_entry_def)
qed

lemma normalizeKeys_bad:
  "\<exists>e \<in> set key_map. length (keyBuffer (snd e)) \<noteq> n * 2 \<Longrightarrow>
   \<exists>b. normalizeKeys key_map (Bytes n) = Inl (KeyLengthMismatch (Some (n * 2)) b)"
proof (induction key_map)
  case Nil
  then show ?case by simp
next
  case (Cons e es)
  obtain i v where e: "e = (i, v)" by (cases e)
  show ?case
  proof (cases "length (keyBuffer v) = n * 2")
    case True
    with Cons.prems have "\<exists>e \<in> set es. length (keyBuffer (snd e)) \<noteq> n * 2" by (simp add: e)
    from Cons.IH[OF this] True show ?thesis by (auto simp: e)
  next
    case False
    then show ?thesis by (simp add: e)
  qed
qed

lemma normalizeKeys_Inr:
  "normalizeKeys key_map (Bytes n) = Inr ks \<longleftrightarrow>
     (\<forall>e \<in> set key_map. length (keyBuffer (snd e)) = n * 2) \<and> ks = map (key_of_entry n) key_map"
proof (cases "\<forall>e \<in> set key_map. length (keyBuffer (snd e)) = n * 2")
  case True
  then show ?thesis using normalizeKeys_ok[OF True] by auto
next
  case False
  then have "\<exists>e \<in> set key_map. length (keyBuffer (snd e)) \<noteq> n * 2" by blast
  from normalizeKeys_bad[OF this] False show ?thesis by auto
qed

lemma normalizeKeys_Inherited: "normalizeKeys key_map Inherited = Inr ks \<longleftrightarrow> key_map = [] \<and> ks = []"
proof (cases key_map)
  case Nil
  then show ?thesis by auto
next
  case (Cons e es)
  obtain i v where "e = (i, v)" by (cases e)
  with Cons show ?thesis by simp
qed

lemma keySizes_Bytes: "keySizes name = Some (Bytes n) \<longleftrightarrow> cipher_key_length name = Some n"
  by (auto simp: keySizes_def split: option.splits)

lemma cipher_key_length_undefined: "cipher_key_length ''undefined'' = None"
  by code_simp

text \<open>
  What the merged options and the key map must be for the construction to succeed,
  and what the keyring then holds.
\<close>

lemma keyring_Inr:
  "keyring key_map opts = Inr kr \<longleftrightarrow>
     (\<exists>s n a. salt opts = Some s
        \<and> encryption (assign_defaults opts) = Defined a
        \<and> cipher_key_length a = Some n
        \<and> (\<forall>e \<in> set key_map. length (keyBuffer (snd e)) = n * 2)
        \<and> key_map \<noteq> []
        \<and> (\<forall>e \<in> set key_map. parseInt10 (fst e) \<noteq> NaN)
        \<and> kr = \<lparr>keys = map (key_of_entry n) key_map,
                  merged = \<lparr>encryption = Defined a, salt = Some s\<rparr>\<rparr>)"
  (is "?L \<longleftrightarrow> ?R")
proof
  assume l: ?L
  have sa: "salt (assign_defaults opts) = salt opts"
    by (simp add: assign_defaults_def split: property.splits)
  from l obtain s where s: "salt opts = Some s"
    by (auto simp: keyring_def sa split: option.splits)
  from l s obtain size where size: "keySizes (property_name (encryption (assign_defaults opts))) = Some size"
    by (auto simp: keyring_def sa split: option.splits)
  from l s size obtain ks where ks: "normalizeKeys key_map size = Inr ks"
    "validateKeyring ks = Inr ()" "kr = \<lparr>keys = ks, merged = assign_defaults opts\<rparr>"
    by (auto simp: keyring_def sa split: sum.splits)
  from ks(2) have v: "ks \<noteq> []" "\<forall>k \<in> set ks. id_num k \<noteq> NaN"
    by (auto simp: validateKeyring_def list_ex_iff split: if_splits)
  from ks(1) v(1) obtain n where n: "size = Bytes n"
    by (cases size) (auto simp: normalizeKeys_Inherited)
  from size n have c: "cipher_key_length (property_name (encryption (assign_defaults opts))) = Some n"
    by (simp only: keySizes_Bytes)
  then obtain a where a: "encryption (assign_defaults opts) = Defined a"
    by (cases "encryption (assign_defaults opts)") (auto simp: cipher_key_length_undefined)
  from ks(1) have nk: "\<forall>e \<in> set key_map. length (keyBuffer (snd e)) = n * 2"
    "ks = map (key_of_entry n) key_map"
    unfolding n normalizeKeys_Inr by simp_all
  have m: "assign_defaults opts = \<lparr>encryption = Defined a, salt = Some s\<rparr>"
    using a s sa by (cases "assign_defaults opts") simp
  from v nk(2) have "key_map \<noteq> []" "\<forall>e \<in> set key_map. parseInt10 (fst e) \<noteq> NaN"
    by (auto simp: key_of_entry_def)
  with s a c nk ks(3) m show ?R by (auto simp: a)
next
  assume ?R
  then obtain s n a where h: "salt opts = Some s" "encryption (assign_defaults opts) = Defined a"
    "cipher_key_length a = Some n"
    "\<forall>e \<in> set key_map. length (keyBuffer (snd e)) = n * 2"
    "key_map \<noteq> []" "\<forall>e \<in> set key_map. parseInt10 (fst e) \<noteq> NaN"
    "kr = \<lparr>keys = map (key_of_entry n) key_map,
           merged = \<lparr>encryption = Defined a, salt = Some s\<rparr>\<rparr>"
    by blast
  have sa: "salt (assign_defaults opts) = Some s"
    using h(1) by (simp add: assign_defaults_def split: property.splits)
  have m: "assign_defaults opts = \<lparr>encryption = Defined a, salt = Some s\<rparr>"
    using h(2) sa by (cases "assign_defaults opts") simp
  have v: "validateKeyring (map (key_of_entry n) key_map) = Inr ()"
    using h(4,5,6) by (auto simp: validateKeyring_def list_ex_iff key_of_entry_def)
  have k: "keySizes a = Some (Bytes n)" using h(3) by (simp only: keySizes_Bytes)
  show ?L
    by (simp add: keyring_def sa h(2,7) k normalizeKeys_ok[OF h(4)] v m)
qed

lemma digest_test_keyring:
  "keyring [(str ''0'', SecretBase64 secret_128)] digest_test_options = Inr digest_test_keyring"
  by code_simp

section \<open>UTF-8 decodes what it encodes\<close>

lemma uint_of_int_8: "0 \<le> x \<Longrightarrow> x < 256 \<Longrightarrow> uint (of_int x :: byte) = x"
  by (simp add: uint_word_of_int take_bit_eq_mod)

text \<open>The code points that are no surrogates.\<close>

definition scalar :: "int \<Rightarrow> bool" where
  "scalar cp = (0 \<le> cp \<and> cp < 0x110000 \<and> \<not> (0xD800 \<le> cp \<and> cp \<le> 0xDFFF))"

lemma radix64:
  fixes cp :: int
  shows "cp div 64 = cp div 4096 * 64 + cp div 64 mod 64"
    and "cp div 4096 = cp div 262144 * 64 + cp div 4096 mod 64"
    and "cp = cp div 64 * 64 + cp mod 64"
proof -
  have "cp div 4096 = cp div 64 div 64" by (simp add: zdiv_zmult2_eq)
  then show "cp div 64 = cp div 4096 * 64 + cp div 64 mod 64" by simp
  have "cp div 262144 = cp div 4096 div 64" by (simp add: zdiv_zmult2_eq)
  then show "cp div 4096 = cp div 262144 * 64 + cp div 4096 mod 64" by simp
  show "cp = cp div 64 * 64 + cp mod 64" by simp
qed

lemma dec1:
  assumes "0 \<le> cp" "cp < 0x80"
  shows "utf8_dec 0 0 0x80 0xBF (utf8_bytes cp @ rest) = utf16_units cp @ utf8_dec 0 0 0x80 0xBF rest"
proof -
  have u: "uint (of_int cp :: byte) = cp" using assms by (intro uint_of_int_8) simp_all
  have b: "utf8_bytes cp = [of_int cp]" using assms by (simp add: utf8_bytes_def)
  have w: "utf16_units cp = [of_int cp]" using assms by (simp add: utf16_units_def)
  show ?thesis
    unfolding b w using assms by (simp add: u)
qed

lemma dec2:
  assumes "0x80 \<le> cp" "cp < 0x800"
  shows "utf8_dec 0 0 0x80 0xBF (utf8_bytes cp @ rest) = utf16_units cp @ utf8_dec 0 0 0x80 0xBF rest"
proof -
  define h l where "h = cp div 64" and "l = cp mod 64"
  have cp: "cp = h * 64 + l" by (simp add: h_def l_def)
  have hr: "2 \<le> h" "h \<le> 31" using assms unfolding h_def by simp_all
  have lr: "0 \<le> l" "l < 64" unfolding l_def by simp_all
  have u1: "uint (of_int (0xC0 + h) :: byte) = 0xC0 + h" using hr by (intro uint_of_int_8) simp_all
  have u2: "uint (of_int (0x80 + l) :: byte) = 0x80 + l" using lr by (intro uint_of_int_8) simp_all
  have b: "utf8_bytes cp = [of_int (0xC0 + h), of_int (0x80 + l)]"
    using assms by (simp add: utf8_bytes_def h_def l_def)
  show ?thesis
    unfolding b using hr lr by (simp add: u1 u2 cp[symmetric] del: of_int_add)
qed

lemma dec3:
  assumes "0x800 \<le> cp" "cp < 0x10000" "\<not> (0xD800 \<le> cp \<and> cp \<le> 0xDFFF)"
  shows "utf8_dec 0 0 0x80 0xBF (utf8_bytes cp @ rest) = utf16_units cp @ utf8_dec 0 0 0x80 0xBF rest"
proof -
  define h m l where "h = cp div 4096" and "m = cp div 64 mod 64" and "l = cp mod 64"
  have mr: "0 \<le> m" "m < 64" unfolding m_def by simp_all
  have lr: "0 \<le> l" "l < 64" unfolding l_def by simp_all
  have q: "cp div 64 = h * 64 + m" unfolding h_def m_def by (rule radix64(1))
  have cp: "cp = (h * 64 + m) * 64 + l" unfolding q[symmetric] l_def by (rule radix64(3))
  have fl: "cp = h * 4096 + m * 64 + l" using cp by simp
  have hr: "0 \<le> h" "h \<le> 15"
    using assms(1) fl mr lr apply linarith using assms(2) fl mr lr by linarith
  have e0: "h = 0 \<Longrightarrow> 32 \<le> m" using assms(1) fl mr lr by linarith
  have ed: "h = 13 \<Longrightarrow> m \<le> 31" using assms(2,3) fl mr lr by linarith
  have u1: "uint (of_int (0xE0 + h) :: byte) = 0xE0 + h" using hr by (intro uint_of_int_8) simp_all
  have u2: "uint (of_int (0x80 + m) :: byte) = 0x80 + m" using mr by (intro uint_of_int_8) simp_all
  have u3: "uint (of_int (0x80 + l) :: byte) = 0x80 + l" using lr by (intro uint_of_int_8) simp_all
  have b: "utf8_bytes cp = [of_int (0xE0 + h), of_int (0x80 + m), of_int (0x80 + l)]"
    using assms by (simp add: utf8_bytes_def h_def m_def l_def)
  show ?thesis
    unfolding b using hr mr lr e0 ed by (simp add: u1 u2 u3 del: of_int_add) (auto simp: fl mult.commute)
qed

lemma dec4:
  assumes "0x10000 \<le> cp" "cp < 0x110000"
  shows "utf8_dec 0 0 0x80 0xBF (utf8_bytes cp @ rest) = utf16_units cp @ utf8_dec 0 0 0x80 0xBF rest"
proof -
  define h m1 m2 l where "h = cp div 262144" and "m1 = cp div 4096 mod 64"
    and "m2 = cp div 64 mod 64" and "l = cp mod 64"
  have m1r: "0 \<le> m1" "m1 < 64" unfolding m1_def by simp_all
  have m2r: "0 \<le> m2" "m2 < 64" unfolding m2_def by simp_all
  have lr: "0 \<le> l" "l < 64" unfolding l_def by simp_all
  have q2: "cp div 4096 = h * 64 + m1" unfolding h_def m1_def by (rule radix64(2))
  have q1: "cp div 64 = (h * 64 + m1) * 64 + m2" unfolding q2[symmetric] m2_def by (rule radix64(1))
  have cp: "cp = ((h * 64 + m1) * 64 + m2) * 64 + l" unfolding q1[symmetric] l_def by (rule radix64(3))
  have fl: "cp = h * 262144 + m1 * 4096 + m2 * 64 + l" using cp by simp
  have hr: "0 \<le> h" "h \<le> 4"
    using assms(1) fl m1r m2r lr apply linarith using assms(2) fl m1r m2r lr by linarith
  have f0: "h = 0 \<Longrightarrow> 16 \<le> m1" using assms(1) fl m1r m2r lr by linarith
  have f4: "h = 4 \<Longrightarrow> m1 \<le> 15" using assms(2) fl m1r m2r lr by linarith
  have u1: "uint (of_int (0xF0 + h) :: byte) = 0xF0 + h" using hr by (intro uint_of_int_8) simp_all
  have u2: "uint (of_int (0x80 + m1) :: byte) = 0x80 + m1" using m1r by (intro uint_of_int_8) simp_all
  have u3: "uint (of_int (0x80 + m2) :: byte) = 0x80 + m2" using m2r by (intro uint_of_int_8) simp_all
  have u4: "uint (of_int (0x80 + l) :: byte) = 0x80 + l" using lr by (intro uint_of_int_8) simp_all
  have b: "utf8_bytes cp = [of_int (0xF0 + h), of_int (0x80 + m1), of_int (0x80 + m2), of_int (0x80 + l)]"
    using assms by (simp add: utf8_bytes_def h_def m1_def m2_def l_def)
  show ?thesis
    unfolding b using hr m1r m2r lr f0 f4 by (simp add: u1 u2 u3 u4 del: of_int_add) (auto simp: fl mult.commute)
qed

lemma utf8_dec_scalar:
  assumes "scalar cp"
  shows "utf8_dec 0 0 0x80 0xBF (utf8_bytes cp @ rest) = utf16_units cp @ utf8_dec 0 0 0x80 0xBF rest"
proof -
  consider "cp < 0x80" | "0x80 \<le> cp" "cp < 0x800" | "0x800 \<le> cp" "cp < 0x10000" | "0x10000 \<le> cp"
    by linarith
  then show ?thesis
  proof cases
    case 1
    then show ?thesis using assms by (intro dec1) (simp_all add: scalar_def)
  next
    case 2
    then show ?thesis by (intro dec2)
  next
    case 3
    then show ?thesis using assms by (intro dec3) (simp_all add: scalar_def)
  next
    case 4
    then show ?thesis using assms by (intro dec4) (simp_all add: scalar_def)
  qed
qed


lemma utf16_units_unit:
  assumes "\<not> is_high_surrogate u" "\<not> is_low_surrogate u"
  shows "scalar (uint u)" "utf16_units (uint u) = [u]"
proof -
  have r: "0 \<le> uint u" "uint u < 65536" using uint_lt2p[of u] by simp_all
  show "scalar (uint u)" using assms r by (auto simp: scalar_def is_high_surrogate_def is_low_surrogate_def)
  show "utf16_units (uint u) = [u]" using r by (simp add: utf16_units_def)
qed

lemma utf16_units_pair:
  assumes "is_high_surrogate u" "is_low_surrogate l"
  defines "cp \<equiv> 0x10000 + (uint u - 0xD800) * 1024 + (uint l - 0xDC00)"
  shows "scalar cp" "utf16_units cp = [u, l]"
proof -
  define a b where "a = uint u - 0xD800" and "b = uint l - 0xDC00"
  have ar: "0 \<le> a" "a < 1024" and br: "0 \<le> b" "b < 1024"
    using assms(1,2) by (simp_all add: a_def b_def is_high_surrogate_def is_low_surrogate_def)
  have cp: "cp = 0x10000 + (a * 1024 + b)" by (simp add: cp_def a_def b_def)
  show "scalar cp" unfolding scalar_def cp using ar br by simp
  have d: "(cp - 0x10000) div 1024 = a" and m: "(cp - 0x10000) mod 1024 = b"
    unfolding cp using ar br by simp_all
  have ua: "(of_int (0xD800 + a) :: 16 word) = u" unfolding a_def by simp
  have ub: "(of_int (0xDC00 + b) :: 16 word) = l" unfolding b_def by simp
  have big: "\<not> cp < 0x10000" unfolding cp using ar br by simp
  show "utf16_units cp = [u, l]"
    unfolding utf16_units_def d m using big by (simp only: if_False ua ub)
qed

lemma utf8_decode_encode:
  "well_formed p \<Longrightarrow> utf8_decode (utf8_encode p @ rest) = p @ utf8_decode rest"
proof (induction p rule: well_formed.induct)
  case 1
  show ?case by simp
next
  case (2 u us)
  show ?case
  proof (cases "is_high_surrogate u")
    case True
    with 2(3) obtain l us' where us: "us = l # us'" and l: "is_low_surrogate l" and w: "well_formed us'"
      by (cases us) auto
    have ih: "utf8_decode (utf8_encode us' @ rest) = us' @ utf8_decode rest"
      using 2(1)[OF True us] w by simp
    show ?thesis
      using True l ih utf16_units_pair[OF True l]
      by (simp add: us utf8_decode_def utf8_dec_scalar)
  next
    case False
    with 2(3) have nl: "\<not> is_low_surrogate u" and w: "well_formed us" by auto
    have ih: "utf8_decode (utf8_encode us @ rest) = us @ utf8_decode rest"
      using 2(2)[OF False] w by simp
    show ?thesis
      using False nl ih utf16_units_unit[OF False nl]
      by (simp add: utf8_decode_def utf8_dec_scalar)
  qed
qed

lemma utf8_roundtrip: "well_formed p \<Longrightarrow> utf8_decode (utf8_encode p) = p"
  using utf8_decode_encode[of p "[]"] by (simp add: utf8_decode_def)

section \<open>Encrypting and decrypting with a constructed keyring\<close>

lemma cipher_key_length_aes_key: "cipher_key_length a = Some (length key) \<Longrightarrow> aes_key key"
  by (auto simp: cipher_key_length_def aes_key_def split: if_splits)

lemma length_randomBytes: "length (randomBytes n rng) = n"
  by (simp add: randomBytes_def)

text \<open>What a constructed keyring holds.\<close>

lemma keyring_registry:
  assumes "keyring key_map opts = Inr kr"
  obtains s a n where "salt opts = Some s" "merged kr = \<lparr>encryption = Defined a, salt = Some s\<rparr>"
    "cipher_key_length a = Some n" "keys kr \<noteq> []" "keys kr = map (key_of_entry n) key_map"
    "\<forall>k \<in> set (keys kr). length (encryptionKey k) = n \<and> length (signingKey k) = n
                              \<and> id_num k \<noteq> NaN"
proof -
  from assms obtain s n a where h: "salt opts = Some s"
    "encryption (assign_defaults opts) = Defined a"
    "cipher_key_length a = Some n"
    "\<forall>e \<in> set key_map. length (keyBuffer (snd e)) = n * 2"
    "key_map \<noteq> []" "\<forall>e \<in> set key_map. parseInt10 (fst e) \<noteq> NaN"
    "kr = \<lparr>keys = map (key_of_entry n) key_map,
           merged = \<lparr>encryption = Defined a, salt = Some s\<rparr>\<rparr>"
    unfolding keyring_Inr by blast
  have "\<forall>k \<in> set (keys kr). length (encryptionKey k) = n \<and> length (signingKey k) = n
                              \<and> id_num k \<noteq> NaN"
    using h(4,6) by (auto simp: h(7) key_of_entry_def)
  with h show ?thesis
    using that[of s a n] by simp
qed

lemma currentKey_registry:
  assumes "ks \<noteq> []" "\<forall>k \<in> set ks. id_num k \<noteq> NaN"
  obtains k where "currentKey ks = Inr k" "k \<in> set ks"
    "\<forall>x \<in> set ks. \<not> num_gt (id_num x) (id_num k)"
proof -
  from assms(1) obtain k0 rest where ks: "ks = k0 # rest" by (cases ks) auto
  define k where "k = foldl newer k0 rest"
  have c: "currentKey ks = Inr k" by (simp only: ks currentKey_Cons k_def)
  have m: "k \<in> set ks" unfolding k_def ks by (rule foldl_newer_mem)
  have "\<forall>x \<in> set ks. \<not> num_gt (id_num x) (id_num k)"
    using foldl_newer_max[of k0 rest] assms(2) by (simp add: ks k_def)
  with c m show ?thesis using that by blast
qed

text \<open>The envelope of \<open>encrypt\<close>, for a key of the size of the algorithm.\<close>

definition envelope :: "key \<Rightarrow> buffer \<Rightarrow> buffer \<Rightarrow> string" where
  "envelope k iv m =
     base64_encode
       (hmac_sha256 (signingKey k) (iv @ cbc_encrypt (encryptionKey k) iv m)
        @ iv @ cbc_encrypt (encryptionKey k) iv m)"

lemma encrypt_eq:
  assumes "currentKey ks = Inr k" "cipher_key_length a = Some (length (encryptionKey k))"
  shows "encrypt ks \<lparr>encryption = Defined a, salt = Some s\<rparr> rng (JString p) =
         Inr (envelope k (randomBytes 16 rng) (utf8_encode p), id_num k,
              hex (sha1_hash (utf8_encode (p @ s))))"
  using assms
  by (simp add: encrypt_def createCipheriv_def length_randomBytes cipher_update_final_def
      sha1_def hmacDigest_def envelope_def)

lemma split_envelope:
  assumes "length tag = 32" "length iv = 16"
  shows "take 32 (tag @ iv @ ct) = tag" "take 16 (drop 32 (tag @ iv @ ct)) = iv"
    "drop 48 (tag @ iv @ ct) = ct"
  using assms by simp_all

lemma decrypt_parts_own:
  assumes "cipher_key_length a = Some (length (encryptionKey k))" "length iv = 16"
  shows "decrypt_parts k \<lparr>encryption = Defined a, salt = so\<rparr>
           (hmac_sha256 (signingKey k) (iv @ cbc_encrypt (encryptionKey k) iv m))
           iv (cbc_encrypt (encryptionKey k) iv m)
         = Inr (utf8_decode m)"
  using assms cbc_decrypt_encrypt[OF cipher_key_length_aes_key[OF assms(1)] assms(2), of m]
  by (simp add: decrypt_parts_def createDecipheriv_def decipher_update_final_def
      hmacDigest_def verifySignature_iff)

lemma decrypt_envelope:
  assumes "cipher_key_length a = Some (length (encryptionKey k))" "length iv = 16"
  shows "decrypt k \<lparr>encryption = Defined a, salt = so\<rparr> (envelope k iv m) = Inr (utf8_decode m)"
  unfolding decrypt_def envelope_def base64_roundtrip
  by (simp only: split_envelope[OF length_hmac_sha256 assms(2)] decrypt_parts_own[OF assms])

lemma keyring_current:
  assumes "keyring key_map opts = Inr kr"
  obtains k s a where "currentKey (keys kr) = Inr k" "k \<in> set (keys kr)"
    "\<forall>x \<in> set (keys kr). \<not> num_gt (id_num x) (id_num k)"
    "salt opts = Some s" "merged kr = \<lparr>encryption = Defined a, salt = Some s\<rparr>"
    "cipher_key_length a = Some (length (encryptionKey k))"
proof -
  from keyring_registry[OF assms] obtain s a n where r: "salt opts = Some s"
    "merged kr = \<lparr>encryption = Defined a, salt = Some s\<rparr>" "cipher_key_length a = Some n"
    "keys kr \<noteq> []"
    "\<forall>k \<in> set (keys kr). length (encryptionKey k) = n \<and> length (signingKey k) = n
                              \<and> id_num k \<noteq> NaN"
    by metis
  from r(5) have ids: "\<forall>k \<in> set (keys kr). id_num k \<noteq> NaN" by blast
  from currentKey_registry[OF r(4) ids] obtain k where c: "currentKey (keys kr) = Inr k"
    "k \<in> set (keys kr)" "\<forall>x \<in> set (keys kr). \<not> num_gt (id_num x) (id_num k)"
    by blast
  have ks: "cipher_key_length a = Some (length (encryptionKey k))" using r(3,5) c(2) by simp
  from c r(1,2) ks show ?thesis by (rule that)
qed

lemma keyring_encrypt_eq:
  assumes "currentKey (keys kr) = Inr k"
    "merged kr = \<lparr>encryption = Defined a, salt = Some s\<rparr>"
    "cipher_key_length a = Some (length (encryptionKey k))"
  shows "keyring_encrypt kr rng (JString p) =
        Inr (envelope k (randomBytes 16 rng) (utf8_encode p), id_num k,
             hex (sha1_hash (utf8_encode (p @ s))))"
  unfolding keyring_encrypt_def assms(2) by (simp only: encrypt_eq[OF assms(1,3)])

section \<open>The digest\<close>

lemma sha1_vector:
  "hex (sha1_hash (utf8_encode (str ''42'' @ str ''a''))) = ''118c884d37dde5fb6816daba052d94e82f1dc41f''"
  by code_simp

lemma keyring_digest_eq:
  "keyring key_map opts = Inr kr \<Longrightarrow> salt opts = Some s \<Longrightarrow>
   keyring_digest kr (JString p) = Inr (hex (sha1_hash (utf8_encode (p @ s))))"
  by (auto simp: keyring_Inr keyring_digest_def sha1_def)

text \<open>
  C6: the digest of a keyring is the SHA-1 of the plaintext followed by the salt, as 40
  lowercase hex digits, whatever the keys and the algorithm of the keyring are; with
  salt "a" the digest of "42" is 118c884d37dde5fb6816daba052d94e82f1dc41f.
\<close>

theorem digest_is_salted_sha1:
  "keyring key_map opts = Inr kr \<Longrightarrow> salt opts = Some s \<Longrightarrow>
   keyring_digest kr (JString p) = Inr (hex (sha1_hash (utf8_encode (p @ s))))
   \<and> length (hex (sha1_hash (utf8_encode (p @ s)))) = 40
   \<and> set (hex (sha1_hash (utf8_encode (p @ s)))) \<subseteq> set ''0123456789abcdef''
   \<and> (\<forall>key_map' opts' kr'. keyring key_map' opts' = Inr kr' \<and> salt opts' = Some s \<longrightarrow>
          keyring_digest kr' (JString p) = keyring_digest kr (JString p))
   \<and> (s = str ''a'' \<longrightarrow>
          keyring_digest kr (JString (str ''42'')) = Inr ''118c884d37dde5fb6816daba052d94e82f1dc41f'')"
proof -
  assume k: "keyring key_map opts = Inr kr" and s: "salt opts = Some s"
  have 1: "keyring_digest kr (JString p) = Inr (hex (sha1_hash (utf8_encode (p @ s))))"
    by (rule keyring_digest_eq[OF k s])
  have 2: "length (hex (sha1_hash (utf8_encode (p @ s)))) = 40"
    by (simp add: length_hex length_sha1_hash)
  have 3: "set (hex (sha1_hash (utf8_encode (p @ s)))) \<subseteq> set ''0123456789abcdef''"
    by (rule set_hex)
  have 4: "keyring_digest kr' (JString p) = keyring_digest kr (JString p)"
    if "keyring key_map' opts' = Inr kr' \<and> salt opts' = Some s" for key_map' opts' kr'
    using that keyring_digest_eq[of key_map' opts' kr' s p] 1 by simp
  have 5: "keyring_digest kr (JString (str ''42'')) = Inr ''118c884d37dde5fb6816daba052d94e82f1dc41f''"
    if "s = str ''a''"
    using keyring_digest_eq[OF k s, of "str ''42''"] that by (simp only: sha1_vector)
  from 1 2 3 4 5 show ?thesis by blast
qed

theorem digest_is_salted_sha1_witness:
  "keyring [(str ''0'', SecretBase64 secret_128)] digest_test_options = Inr digest_test_keyring
   \<and> salt digest_test_options = Some (str ''a'')
   \<and> keyring_digest digest_test_keyring (JString (str ''42''))
       = Inr (hex (sha1_hash (utf8_encode (str ''42'' @ str ''a''))))
   \<and> length (hex (sha1_hash (utf8_encode (str ''42'' @ str ''a'')))) = 40
   \<and> keyring_digest digest_test_keyring (JString (str ''42''))
       = Inr ''118c884d37dde5fb6816daba052d94e82f1dc41f''"
proof -
  have s: "salt digest_test_options = Some (str ''a'')"
    by (simp add: digest_test_options_def)
  from digest_is_salted_sha1[OF digest_test_keyring s, of "str ''42''"] digest_test_keyring s
  show ?thesis by (simp add: sha1_vector)
qed

section \<open>The digest that encrypt reports\<close>

text \<open>
  C10: the third component of what \<open>encrypt\<close> returns is the digest of the facade, the
  SHA-1 of the plaintext followed by the salt; it depends on nothing else.
\<close>

theorem encrypt_reports_digest:
  "keyring key_map opts = Inr kr \<Longrightarrow>
   \<exists>env kid d s. keyring_encrypt kr rng (JString p) = Inr (env, kid, d)
      \<and> keyring_digest kr (JString p) = Inr d
      \<and> salt opts = Some s \<and> d = hex (sha1_hash (utf8_encode (p @ s)))"
proof -
  assume k: "keyring key_map opts = Inr kr"
  from keyring_current[OF k] obtain k0 s a where c: "currentKey (keys kr) = Inr k0"
    "salt opts = Some s" "merged kr = \<lparr>encryption = Defined a, salt = Some s\<rparr>"
    "cipher_key_length a = Some (length (encryptionKey k0))"
    by metis
  from keyring_digest_eq[OF k c(2), of p] c(2) keyring_encrypt_eq[OF c(1,3,4), of rng p]
  show ?thesis
    by (intro exI conjI) (assumption | rule refl)+
qed


theorem encrypt_reports_digest_witness:
  "keyring [(str ''0'', SecretBase64 secret_128)] digest_test_options = Inr digest_test_keyring
   \<and> (\<exists>env kid. keyring_encrypt digest_test_keyring zero_rng (JString (str ''42''))
                   = Inr (env, kid, ''118c884d37dde5fb6816daba052d94e82f1dc41f''))
   \<and> keyring_digest digest_test_keyring (JString (str ''42''))
       = Inr ''118c884d37dde5fb6816daba052d94e82f1dc41f''"
proof -
  have s: "salt digest_test_options = Some (str ''a'')" by (simp add: digest_test_options_def)
  from encrypt_reports_digest[OF digest_test_keyring, of zero_rng "str ''42''"]
  obtain env kid d s' where r: "keyring_encrypt digest_test_keyring zero_rng (JString (str ''42''))
      = Inr (env, kid, d)" "keyring_digest digest_test_keyring (JString (str ''42'')) = Inr d"
    "salt digest_test_options = Some s'" "d = hex (sha1_hash (utf8_encode (str ''42'' @ s')))"
    by blast
  from r(3) s have "s' = str ''a''" by simp
  with r(4) have d: "d = ''118c884d37dde5fb6816daba052d94e82f1dc41f''"
    by (simp only: sha1_vector)
  from r(1,2) show ?thesis
    unfolding d using digest_test_keyring by blast
qed

section \<open>Key ids\<close>

lemma keyring_ids:
  "keyring key_map opts = Inr kr \<Longrightarrow> map id_num (keys kr) = map (\<lambda>e. parseInt10 (fst e)) key_map"
  by (auto simp: keyring_Inr key_of_entry_def)

text \<open>
  C7: the code reads every id with \<open>parseInt(id, 10)\<close> and rejects the key map only
  when an id reads as NaN, as the id "a" of the test does. The ids "1.5" and "12abc" are
  no integers either, and the keyring is constructed, with the ids 1 and 12.
\<close>

theorem non_integer_ids_accepted:
  "keyring [(str ''1.5'', SecretBase64 secret_128), (str ''12abc'', SecretBase64 secret_128)]
       \<lparr>encryption = Absent, salt = Some []\<rparr>
     = Inr \<lparr>keys = [\<lparr>id_num = Num 1, encryptionKey = encryption_128, signingKey = signing_128\<rparr>,
                    \<lparr>id_num = Num 12, encryptionKey = encryption_128, signingKey = signing_128\<rparr>],
            merged = \<lparr>encryption = Defined ''aes-128-cbc'', salt = Some []\<rparr>\<rparr>
   \<and> keyring [(str ''a'', SecretBase64 secret_128)] \<lparr>encryption = Absent, salt = Some []\<rparr>
     = Inl InvalidKeyId"
  by code_simp

text \<open>
  Ids that are the numerals of distinct safe integers are read as these integers.
\<close>

lemma parsed_numerals:
  assumes "\<forall>e \<in> set key_map. \<exists>n. safe_integer n \<and> fst e = number_to_string (Num n)"
    "distinct (map fst key_map)"
  shows "distinct (map (\<lambda>e. parseInt10 (fst e)) key_map)"
    "\<forall>e \<in> set key_map. is_safe (parseInt10 (fst e))"
proof -
  have "inj_on parseInt10 (set (map fst key_map))"
  proof (rule inj_onI)
    fix a b
    assume a: "a \<in> set (map fst key_map)" and b: "b \<in> set (map fst key_map)"
      and eq: "parseInt10 a = parseInt10 b"
    from a obtain ea where "ea \<in> set key_map" "a = fst ea" by auto
    with assms(1) obtain n where n: "safe_integer n" "a = number_to_string (Num n)" by blast
    from b obtain eb where "eb \<in> set key_map" "b = fst eb" by auto
    with assms(1) obtain m where m: "safe_integer m" "b = number_to_string (Num m)" by blast
    from eq have "Num n = Num m"
      by (simp only: n(2) m(2) parseInt10_number_to_string[OF n(1)]
          parseInt10_number_to_string[OF m(1)])
    with n(2) m(2) show "a = b" by simp
  qed
  with assms(2) have "distinct (map parseInt10 (map fst key_map))"
    by (simp only: distinct_map simp_thms)
  then show "distinct (map (\<lambda>e. parseInt10 (fst e)) key_map)" by (simp add: comp_def)
  show "\<forall>e \<in> set key_map. is_safe (parseInt10 (fst e))"
  proof
    fix e assume "e \<in> set key_map"
    with assms(1) obtain n where n: "safe_integer n" "fst e = number_to_string (Num n)" by blast
    then show "is_safe (parseInt10 (fst e))"
      by (simp only: parseInt10_number_to_string[OF n(1)] is_safe.simps)
  qed
qed

lemma two_keyring: "keyring two_key_map empty_salt_options = Inr two_keyring"
  by code_simp

text \<open>
  C8, as the code has it: construction does not compare the ids. The ids of the
  registry are the Numbers read from the ids of the key map, in its order. When the ids
  of the map are the numerals of safe integers, which are distinct as the names of an
  object are, the registry is valid: its ids are these integers and no two are equal.
\<close>

theorem registry_ids_follow_key_map:
  "keyring key_map opts = Inr kr \<Longrightarrow>
   map id_num (keys kr) = map (\<lambda>e. parseInt10 (fst e)) key_map
   \<and> ((\<forall>e \<in> set key_map. \<exists>n. safe_integer n \<and> fst e = number_to_string (Num n))
        \<and> distinct (map fst key_map)
        \<longrightarrow> valid_registry (keys kr))"
proof -
  assume k: "keyring key_map opts = Inr kr"
  note ids = keyring_ids[OF k]
  have "valid_registry (keys kr)"
    if h: "(\<forall>e \<in> set key_map. \<exists>n. safe_integer n \<and> fst e = number_to_string (Num n))
           \<and> distinct (map fst key_map)"
  proof -
    from h have 1: "\<forall>e \<in> set key_map. \<exists>n. safe_integer n \<and> fst e = number_to_string (Num n)"
      and 2: "distinct (map fst key_map)" by blast+
    note p = parsed_numerals[OF 1 2]
    have "list_all is_safe (map id_num (keys kr))"
      unfolding ids using p(2) by (simp add: list_all_iff)
    then have "list_all (\<lambda>k. is_safe (id_num k)) (keys kr)"
      by (simp add: list_all_iff)
    with p(1) show ?thesis by (simp add: valid_registry_def ids)
  qed
  with ids show ?thesis by blast
qed

theorem registry_ids_follow_key_map_witness:
  "keyring two_key_map empty_salt_options = Inr two_keyring
   \<and> map fst two_key_map = [number_to_string (Num 0), number_to_string (Num 1)]
   \<and> safe_integer 0 \<and> safe_integer 1
   \<and> distinct (map fst two_key_map)
   \<and> map id_num (keys two_keyring) = [Num 0, Num 1]
   \<and> valid_registry (keys two_keyring)"
proof -
  have 1: "map fst two_key_map = [number_to_string (Num 0), number_to_string (Num 1)]"
    by code_simp
  have 2: "safe_integer 0" "safe_integer 1" by (simp_all add: safe_integer_def)
  have 3: "distinct (map fst two_key_map)" by code_simp
  have 4: "\<forall>e \<in> set two_key_map. \<exists>n. safe_integer n \<and> fst e = number_to_string (Num n)"
  proof
    fix e assume "e \<in> set two_key_map"
    then have "fst e \<in> set (map fst two_key_map)" by simp
    then have "fst e = number_to_string (Num 0) \<or> fst e = number_to_string (Num 1)"
      unfolding 1 by simp
    with 2 show "\<exists>n. safe_integer n \<and> fst e = number_to_string (Num n)" by blast
  qed
  have 5: "map (\<lambda>e. parseInt10 (fst e)) two_key_map = [Num 0, Num 1]" by code_simp
  from registry_ids_follow_key_map[OF two_keyring] 3 4
  have "map id_num (keys two_keyring) = map (\<lambda>e. parseInt10 (fst e)) two_key_map"
    "valid_registry (keys two_keyring)" by blast+
  with two_keyring 1 2 3 5 show ?thesis by simp
qed

text \<open>
  The claim C8 as stated fails: the key map with the ids "1" and "01" is accepted, and
  both keys of the registry have the id 1.
\<close>

theorem duplicate_ids_accepted:
  "keyring [(str ''1'', SecretBuffer (replicate 32 0)), (str ''01'', SecretBase64 secret_128)]
       \<lparr>encryption = Absent, salt = Some []\<rparr>
     = Inr \<lparr>keys = [\<lparr>id_num = Num 1, encryptionKey = replicate 16 0, signingKey = replicate 16 0\<rparr>,
                    \<lparr>id_num = Num 1, encryptionKey = encryption_128, signingKey = signing_128\<rparr>],
            merged = \<lparr>encryption = Defined ''aes-128-cbc'', salt = Some []\<rparr>\<rparr>"
  by code_simp

section \<open>Lookup of a key\<close>




lemma safe_registry_ids:
  "list_all (\<lambda>k. is_safe (id_num k)) ks \<Longrightarrow> \<forall>k \<in> set ks. \<exists>m. id_num k = Num m \<and> safe_integer m"
proof
  fix k assume a: "list_all (\<lambda>k. is_safe (id_num k)) ks" "k \<in> set ks"
  then have "is_safe (id_num k)" by (simp add: list_all_iff)
  then show "\<exists>m. id_num k = Num m \<and> safe_integer m" by (cases "id_num k") simp_all
qed



lemma three_keyring: "keyring three_key_map empty_salt_options = Inr three_keyring"
  by code_simp



section \<open>The run of the example script\<close>

lemmas aes_eval = round_keys_def key_expansion_def key_expansion_step_def xor_bytes_def
  rot_word_def rcon_def sbox_def sbox_table_def inv_sbox_def inv_sbox_table_def xtime_def
  mul3_def mul9_def mul11_def mul13_def mul14_def sub_bytes_def inv_sub_bytes_def
  shift_rows_def inv_shift_rows_def mix_columns_def inv_mix_columns_def enc_round_def
  enc_final_def dec_round_def dec_final_def aes_encrypt_block_def aes_decrypt_block_def

lemma example_keyring: "keyring example_key_map example_options = Inr example_keyring"
  by code_simp

lemma example_current: "currentKey (keys example_keyring) = Inr key_1"
  by (simp add: example_keyring_def)

lemma example_randomBytes: "randomBytes 16 example_rng = example_iv"
  by code_simp

lemma example_plaintext:
  "utf8_encode (str ''TESTE SECRETO'') = [84, 69, 83, 84, 69, 32, 83, 69, 67, 82, 69, 84, 79]"
  by code_simp

lemma example_cbc:
  "cbc_encrypt encryption_128 example_iv [84, 69, 83, 84, 69, 32, 83, 69, 67, 82, 69, 84, 79]
   = example_ciphertext"
  by (simp add: encryption_128_def example_iv_def example_ciphertext_def cbc_encrypt_def
      pkcs7_pad_def aes_eval)

lemma example_hmac: "hmac_sha256 signing_128 (example_iv @ example_ciphertext) = example_tag"
  by code_simp

lemma example_base64:
  "base64_encode (example_tag @ example_iv @ example_ciphertext) = example_envelope"
  by code_simp

lemma example_digest:
  "hex (sha1_hash (utf8_encode (str ''TESTE SECRETO'' @ str ''salt-n-pepper'')))
   = ''d8bf9acf6c7558d61b7a1cc1f303e6c15dc4bc81''"
  by code_simp

lemma example_key: "encryptionKey key_1 = encryption_128" "signingKey key_1 = signing_128"
  "id_num key_1 = Num 1"
  by (simp_all add: key_1_def)

text \<open>The model gives the envelope and the digest that the script prints.\<close>

lemma example_encrypt:
  "keyring_encrypt example_keyring example_rng (JString (str ''TESTE SECRETO''))
   = Inr (example_envelope, Num 1, ''d8bf9acf6c7558d61b7a1cc1f303e6c15dc4bc81'')"
proof -
  have m: "merged example_keyring
      = \<lparr>encryption = Defined ''aes-128-cbc'', salt = Some (str ''salt-n-pepper'')\<rparr>"
    by (simp add: example_keyring_def)
  have c: "cipher_key_length ''aes-128-cbc'' = Some (length (encryptionKey key_1))"
    by code_simp
  show ?thesis
    unfolding keyring_encrypt_eq[OF example_current m c] envelope_def
    by (simp only: example_key example_randomBytes example_plaintext example_cbc example_hmac
        example_base64 example_digest)
qed

section \<open>The envelope\<close>

text \<open>
  C5: the envelope is the base64 text of tag, IV and ciphertext in this order. The IV
  has 16 bytes, the tag is the HMAC-SHA256 of IV and ciphertext under the signing key
  of the current key and has 32 bytes; \<open>decrypt\<close> cuts the decoded envelope into these
  three parts again, under whatever key it runs.
\<close>

theorem envelope_wire_format:
  "keyring key_map opts = Inr kr \<Longrightarrow>
   \<exists>k tag iv ct d.
      currentKey (keys kr) = Inr k
      \<and> iv = randomBytes 16 rng \<and> length iv = 16
      \<and> ct = cbc_encrypt (encryptionKey k) iv (utf8_encode p)
      \<and> tag = hmacDigest (signingKey k) (iv @ ct) \<and> tag = hmac_sha256 (signingKey k) (iv @ ct)
      \<and> length tag = 32
      \<and> keyring_encrypt kr rng (JString p) = Inr (base64_encode (tag @ iv @ ct), id_num k, d)
      \<and> base64_decode (base64_encode (tag @ iv @ ct)) = tag @ iv @ ct
      \<and> take 32 (tag @ iv @ ct) = tag
      \<and> take 16 (drop 32 (tag @ iv @ ct)) = iv
      \<and> drop 48 (tag @ iv @ ct) = ct
      \<and> (\<forall>k'. decrypt k' (merged kr) (base64_encode (tag @ iv @ ct))
                = decrypt_parts k' (merged kr) tag iv ct)"
proof -
  assume kr: "keyring key_map opts = Inr kr"
  from keyring_current[OF kr] obtain k s a where e: "currentKey (keys kr) = Inr k"
    and c: "merged kr = \<lparr>encryption = Defined a, salt = Some s\<rparr>"
    "cipher_key_length a = Some (length (encryptionKey k))"
    by metis
  note e3 = keyring_encrypt_eq[OF e c, of rng p]
  define iv where "iv = randomBytes 16 rng"
  define ct where "ct = cbc_encrypt (encryptionKey k) iv (utf8_encode p)"
  define tag where "tag = hmac_sha256 (signingKey k) (iv @ ct)"
  have liv: "length iv = 16" by (simp add: iv_def length_randomBytes)
  have ltag: "length tag = 32" by (simp add: tag_def length_hmac_sha256)
  have env: "envelope k iv (utf8_encode p) = base64_encode (tag @ iv @ ct)"
    by (simp add: envelope_def tag_def ct_def)
  have enc: "keyring_encrypt kr rng (JString p) =
      Inr (base64_encode (tag @ iv @ ct), id_num k, hex (sha1_hash (utf8_encode (p @ s))))"
    by (simp only: e3 env iv_def[symmetric])
  have dec: "decrypt k' (merged kr) (base64_encode (tag @ iv @ ct))
      = decrypt_parts k' (merged kr) tag iv ct" for k'
    unfolding decrypt_def base64_roundtrip by (simp only: split_envelope[OF ltag liv])
  have hd: "tag = hmacDigest (signingKey k) (iv @ ct)" by (simp only: tag_def hmacDigest_def)
  note sp = split_envelope[OF ltag liv, of ct]
  have "currentKey (keys kr) = Inr k
      \<and> iv = randomBytes 16 rng \<and> length iv = 16
      \<and> ct = cbc_encrypt (encryptionKey k) iv (utf8_encode p)
      \<and> tag = hmacDigest (signingKey k) (iv @ ct) \<and> tag = hmac_sha256 (signingKey k) (iv @ ct)
      \<and> length tag = 32
      \<and> keyring_encrypt kr rng (JString p)
          = Inr (base64_encode (tag @ iv @ ct), id_num k, hex (sha1_hash (utf8_encode (p @ s))))
      \<and> base64_decode (base64_encode (tag @ iv @ ct)) = tag @ iv @ ct
      \<and> take 32 (tag @ iv @ ct) = tag
      \<and> take 16 (drop 32 (tag @ iv @ ct)) = iv
      \<and> drop 48 (tag @ iv @ ct) = ct
      \<and> (\<forall>k'. decrypt k' (merged kr) (base64_encode (tag @ iv @ ct))
                = decrypt_parts k' (merged kr) tag iv ct)"
    using e iv_def liv ct_def hd tag_def ltag enc base64_roundtrip sp dec
    by (intro conjI allI) (assumption | rule refl)+
  then show ?thesis by blast
qed

theorem envelope_wire_format_witness:
  "keyring example_key_map example_options = Inr example_keyring
   \<and> currentKey (keys example_keyring) = Inr key_1
   \<and> randomBytes 16 example_rng = example_iv \<and> length example_iv = 16
   \<and> cbc_encrypt (encryptionKey key_1) example_iv (utf8_encode (str ''TESTE SECRETO''))
       = example_ciphertext
   \<and> hmac_sha256 (signingKey key_1) (example_iv @ example_ciphertext) = example_tag
   \<and> length example_tag = 32
   \<and> keyring_encrypt example_keyring example_rng (JString (str ''TESTE SECRETO''))
       = Inr (example_envelope, Num 1, ''d8bf9acf6c7558d61b7a1cc1f303e6c15dc4bc81'')
   \<and> base64_encode (example_tag @ example_iv @ example_ciphertext) = example_envelope
   \<and> base64_decode example_envelope = example_tag @ example_iv @ example_ciphertext
   \<and> take 32 (base64_decode example_envelope) = example_tag
   \<and> take 16 (drop 32 (base64_decode example_envelope)) = example_iv
   \<and> drop 48 (base64_decode example_envelope) = example_ciphertext
   \<and> decrypt key_1 (merged example_keyring) example_envelope
       = decrypt_parts key_1 (merged example_keyring) example_tag example_iv example_ciphertext"
proof -
  from envelope_wire_format[OF example_keyring, of example_rng "str ''TESTE SECRETO''"]
  obtain k tag iv ct d where w: "currentKey (keys example_keyring) = Inr k"
    "iv = randomBytes 16 example_rng" "length iv = 16"
    "ct = cbc_encrypt (encryptionKey k) iv (utf8_encode (str ''TESTE SECRETO''))"
    "tag = hmac_sha256 (signingKey k) (iv @ ct)" "length tag = 32"
    "keyring_encrypt example_keyring example_rng (JString (str ''TESTE SECRETO''))
       = Inr (base64_encode (tag @ iv @ ct), id_num k, d)"
    "base64_decode (base64_encode (tag @ iv @ ct)) = tag @ iv @ ct"
    "take 32 (tag @ iv @ ct) = tag" "take 16 (drop 32 (tag @ iv @ ct)) = iv"
    "drop 48 (tag @ iv @ ct) = ct"
    "\<forall>k'. decrypt k' (merged example_keyring) (base64_encode (tag @ iv @ ct))
            = decrypt_parts k' (merged example_keyring) tag iv ct"
    by blast
  from w(1) have k: "k = key_1" by (simp only: example_current sum.inject)
  have iv: "iv = example_iv" by (simp only: w(2) example_randomBytes)
  have ct: "ct = example_ciphertext"
    by (simp only: w(4) k iv example_key example_plaintext example_cbc)
  have tag: "tag = example_tag" by (simp only: w(5) k iv ct example_key example_hmac)
  have env: "base64_encode (tag @ iv @ ct) = example_envelope"
    by (simp only: tag iv ct example_base64)
  note f = w[unfolded env, unfolded k iv ct tag]
  have cbc: "cbc_encrypt (encryptionKey key_1) example_iv (utf8_encode (str ''TESTE SECRETO''))
       = example_ciphertext"
    using f(4) by simp
  have hm: "hmac_sha256 (signingKey key_1) (example_iv @ example_ciphertext) = example_tag"
    using f(5) by simp
  have de: "decrypt key_1 (merged example_keyring) example_envelope
       = decrypt_parts key_1 (merged example_keyring) example_tag example_iv example_ciphertext"
    using f(12) by blast
  have t: "take 32 (base64_decode example_envelope) = example_tag"
    "take 16 (drop 32 (base64_decode example_envelope)) = example_iv"
    "drop 48 (base64_decode example_envelope) = example_ciphertext"
    by (simp_all only: f(8) f(9) f(10) f(11))
  from example_keyring example_current example_randomBytes f(3) cbc hm f(6) example_encrypt
    example_base64 f(8) t de
  show ?thesis by (intro conjI)
qed

section \<open>Decrypting what was encrypted\<close>

lemma cipher_key_length_names:
  "cipher_key_length a = Some n \<Longrightarrow> a \<in> set [''aes-128-cbc'', ''aes-192-cbc'', ''aes-256-cbc'']"
  by (auto simp: cipher_key_length_def split: if_splits)

lemma valid_registry_ids:
  assumes "valid_registry ks"
  shows "\<forall>k \<in> set ks. \<exists>m. id_num k = Num m \<and> safe_integer m" "distinct (map id_num ks)"
  using assms safe_registry_ids[of ks] by (simp_all add: valid_registry_def)

lemma keyring_decrypt_envelope:
  assumes "valid_registry (keys kr)" "k \<in> set (keys kr)" "id_num k = Num n"
    "merged kr = \<lparr>encryption = Defined a, salt = so\<rparr>"
    "cipher_key_length a = Some (length (encryptionKey k))" "length iv = 16"
  shows "keyring_decrypt kr (envelope k iv m) (JNumber (Num n)) = Inr (utf8_decode m)"
  unfolding keyring_decrypt_def
    findKey_own_id[OF valid_registry_ids[OF assms(1)] assms(2,3)] assms(4)
  by (simp only: sum.case decrypt_envelope[OF assms(5,6)])

text \<open>
  C1, as the code has it. With a registry of distinct safe integers, \<open>decrypt\<close> of the
  envelope and the key id that \<open>encrypt\<close> returns gives the plaintext as UTF-8 reads
  back what it wrote: the plaintext itself when it is well formed. The algorithm of a
  constructed keyring is one of the three.
\<close>

theorem round_trip:
  "keyring key_map opts = Inr kr \<Longrightarrow> valid_registry (keys kr) \<Longrightarrow>
   (\<exists>a \<in> set [''aes-128-cbc'', ''aes-192-cbc'', ''aes-256-cbc'']. encryption (merged kr) = Defined a)
   \<and> (\<exists>env n d. keyring_encrypt kr rng (JString p) = Inr (env, Num n, d)
         \<and> keyring_decrypt kr env (JNumber (Num n)) = Inr (utf8_decode (utf8_encode p))
         \<and> (well_formed p \<longrightarrow> keyring_decrypt kr env (JNumber (Num n)) = Inr p))"
proof -
  assume kr: "keyring key_map opts = Inr kr" and v: "valid_registry (keys kr)"
  from keyring_current[OF kr] obtain k s a where c: "currentKey (keys kr) = Inr k"
    "k \<in> set (keys kr)" "merged kr = \<lparr>encryption = Defined a, salt = Some s\<rparr>"
    "cipher_key_length a = Some (length (encryptionKey k))"
    by metis
  from valid_registry_ids(1)[OF v] c(2) obtain n where n: "id_num k = Num n" by blast
  define env where "env = envelope k (randomBytes 16 rng) (utf8_encode p)"
  have e: "keyring_encrypt kr rng (JString p)
      = Inr (env, Num n, hex (sha1_hash (utf8_encode (p @ s))))"
    by (simp only: keyring_encrypt_eq[OF c(1,3,4)] env_def n)
  have d: "keyring_decrypt kr env (JNumber (Num n)) = Inr (utf8_decode (utf8_encode p))"
    unfolding env_def
    by (rule keyring_decrypt_envelope[OF v c(2) n c(3,4) length_randomBytes])
  have w: "keyring_decrypt kr env (JNumber (Num n)) = Inr p" if "well_formed p"
    by (simp only: d utf8_roundtrip[OF that])
  have a: "\<exists>a \<in> set [''aes-128-cbc'', ''aes-192-cbc'', ''aes-256-cbc''].
      encryption (merged kr) = Defined a"
    using cipher_key_length_names[OF c(4)] c(3) by simp
  from e d w have "\<exists>env n d. keyring_encrypt kr rng (JString p) = Inr (env, Num n, d)
         \<and> keyring_decrypt kr env (JNumber (Num n)) = Inr (utf8_decode (utf8_encode p))
         \<and> (well_formed p \<longrightarrow> keyring_decrypt kr env (JNumber (Num n)) = Inr p)"
    by blast
  with a show ?thesis by (rule conjI)
qed

text \<open>The three keyrings of the tests "should encrypts property using ...".\<close>

lemma keyring_128: "keyring [(str ''0'', SecretBase64 secret_128)] empty_salt_options = Inr keyring_128"
  by code_simp

lemma keyring_192: "keyring [(str ''0'', SecretBase64 secret_192)] options_192 = Inr keyring_192"
  by code_simp

lemma keyring_256: "keyring [(str ''0'', SecretBase64 secret_256)] options_256 = Inr keyring_256"
  by code_simp

lemma keyring_encrypt_id:
  assumes "currentKey (keys kr) = Inr k" "keyring_encrypt kr rng v = Inr (env, i, d)"
  shows "i = id_num k"
  using assms
  by (auto simp: keyring_encrypt_def encrypt_def split: property.splits sum.splits)

theorem round_trip_witness:
  "keyring [(str ''0'', SecretBase64 secret_128)] empty_salt_options = Inr keyring_128
   \<and> keyring [(str ''0'', SecretBase64 secret_192)] options_192 = Inr keyring_192
   \<and> keyring [(str ''0'', SecretBase64 secret_256)] options_256 = Inr keyring_256
   \<and> valid_registry (keys keyring_128) \<and> valid_registry (keys keyring_192)
   \<and> valid_registry (keys keyring_256)
   \<and> well_formed (str ''42'')
   \<and> (\<exists>env d. keyring_encrypt keyring_128 zero_rng (JString (str ''42'')) = Inr (env, Num 0, d)
          \<and> keyring_decrypt keyring_128 env (JNumber (Num 0)) = Inr (str ''42''))
   \<and> (\<exists>env d. keyring_encrypt keyring_192 zero_rng (JString (str ''42'')) = Inr (env, Num 0, d)
          \<and> keyring_decrypt keyring_192 env (JNumber (Num 0)) = Inr (str ''42''))
   \<and> (\<exists>env d. keyring_encrypt keyring_256 zero_rng (JString (str ''42'')) = Inr (env, Num 0, d)
          \<and> keyring_decrypt keyring_256 env (JNumber (Num 0)) = Inr (str ''42''))"
proof -
  have v: "valid_registry (keys keyring_128)" "valid_registry (keys keyring_192)"
    "valid_registry (keys keyring_256)"
    by (simp_all add: valid_registry_def keyring_128_def keyring_192_def keyring_256_def
        safe_integer_def)
  have w: "well_formed (str ''42'')" by code_simp
  have c: "\<exists>k. currentKey (keys keyring_128) = Inr k \<and> id_num k = Num 0"
    "\<exists>k. currentKey (keys keyring_192) = Inr k \<and> id_num k = Num 0"
    "\<exists>k. currentKey (keys keyring_256) = Inr k \<and> id_num k = Num 0"
    by (simp_all add: keyring_128_def keyring_192_def keyring_256_def)
  have r: "\<exists>env d. keyring_encrypt kr zero_rng (JString (str ''42'')) = Inr (env, Num 0, d)
          \<and> keyring_decrypt kr env (JNumber (Num 0)) = Inr (str ''42'')"
    if t: "\<exists>env n d. keyring_encrypt kr zero_rng (JString (str ''42'')) = Inr (env, Num n, d)
         \<and> keyring_decrypt kr env (JNumber (Num n)) = Inr (utf8_decode (utf8_encode (str ''42'')))
         \<and> (well_formed (str ''42'') \<longrightarrow> keyring_decrypt kr env (JNumber (Num n)) = Inr (str ''42''))"
      and k: "\<exists>k. currentKey (keys kr) = Inr k \<and> id_num k = Num 0" for kr
  proof -
    from t obtain env n d where e: "keyring_encrypt kr zero_rng (JString (str ''42'')) = Inr (env, Num n, d)"
      "well_formed (str ''42'') \<longrightarrow> keyring_decrypt kr env (JNumber (Num n)) = Inr (str ''42'')"
      by blast
    from k obtain k0 where k0: "currentKey (keys kr) = Inr k0" "id_num k0 = Num 0" by blast
    from keyring_encrypt_id[OF k0(1) e(1)] k0(2) have "n = 0" by simp
    with e w show ?thesis by blast
  qed
  from round_trip[OF keyring_128 v(1), of zero_rng "str ''42''"]
  have 1: "\<exists>env d. keyring_encrypt keyring_128 zero_rng (JString (str ''42'')) = Inr (env, Num 0, d)
          \<and> keyring_decrypt keyring_128 env (JNumber (Num 0)) = Inr (str ''42'')"
    by (intro r[OF _ c(1)]) blast
  from round_trip[OF keyring_192 v(2), of zero_rng "str ''42''"]
  have 2: "\<exists>env d. keyring_encrypt keyring_192 zero_rng (JString (str ''42'')) = Inr (env, Num 0, d)
          \<and> keyring_decrypt keyring_192 env (JNumber (Num 0)) = Inr (str ''42'')"
    by (intro r[OF _ c(2)]) blast
  from round_trip[OF keyring_256 v(3), of zero_rng "str ''42''"]
  have 3: "\<exists>env d. keyring_encrypt keyring_256 zero_rng (JString (str ''42'')) = Inr (env, Num 0, d)
          \<and> keyring_decrypt keyring_256 env (JNumber (Num 0)) = Inr (str ''42'')"
    by (intro r[OF _ c(3)]) blast
  from keyring_128 keyring_192 keyring_256 v w 1 2 3 show ?thesis by (intro conjI)
qed

text \<open>
  A plaintext of one code unit, a high surrogate that no low surrogate follows, under
  the key and the initialization vector of the example script.
\<close>

lemma surrogate_plaintext: "utf8_encode [0xD800] = [0xEF, 0xBF, 0xBD]"
  by code_simp

lemma surrogate_cbc:
  "cbc_encrypt encryption_128 example_iv [0xEF, 0xBF, 0xBD]
   = [124, 90, 88, 32, 163, 52, 152, 227, 9, 82, 178, 233, 175, 79, 207, 139]"
  by (simp add: encryption_128_def example_iv_def cbc_encrypt_def pkcs7_pad_def aes_eval)

lemma surrogate_hmac:
  "hmac_sha256 signing_128 (example_iv @ [124, 90, 88, 32, 163, 52, 152, 227, 9, 82, 178, 233, 175, 79, 207, 139])
   = [117, 1, 42, 199, 88, 108, 230, 219, 184, 190, 130, 78, 5, 104, 157, 55, 25, 118, 98, 27,
      63, 37, 181, 152, 234, 32, 191, 203, 79, 164, 92, 54]"
  by code_simp

lemma surrogate_base64:
  "base64_encode
     ([117, 1, 42, 199, 88, 108, 230, 219, 184, 190, 130, 78, 5, 104, 157, 55, 25, 118, 98, 27,
      63, 37, 181, 152, 234, 32, 191, 203, 79, 164, 92, 54]
      @ example_iv @ [124, 90, 88, 32, 163, 52, 152, 227, 9, 82, 178, 233, 175, 79, 207, 139])
   = ''dQEqx1hs5tu4voJOBWidNxl2Yhs/JbWY6iC/y0+kXDazioZuZbGyK1qOz7wsYOU9fFpYIKM0mOMJUrLpr0/Piw==''"
  by code_simp

lemma surrogate_digest:
  "hex (sha1_hash (utf8_encode ([0xD800] @ str ''salt-n-pepper''))) = ''5938c0c12bfebd7839684b7512dfd31423a09584''"
  by code_simp

lemma surrogate_decode: "utf8_decode [0xEF, 0xBF, 0xBD] = [0xFFFD]"
  by code_simp

lemma surrogate_envelope:
  "envelope key_1 example_iv [0xEF, 0xBF, 0xBD] = ''dQEqx1hs5tu4voJOBWidNxl2Yhs/JbWY6iC/y0+kXDazioZuZbGyK1qOz7wsYOU9fFpYIKM0mOMJUrLpr0/Piw==''"
  unfolding envelope_def
  by (simp only: example_key surrogate_cbc surrogate_hmac surrogate_base64)

lemma example_registry:
  "valid_registry (keys example_keyring)" "key_1 \<in> set (keys example_keyring)"
  "merged example_keyring
     = \<lparr>encryption = Defined ''aes-128-cbc'', salt = Some (str ''salt-n-pepper'')\<rparr>"
  "cipher_key_length ''aes-128-cbc'' = Some (length (encryptionKey key_1))"
  "length example_iv = 16"
  by (simp_all add: valid_registry_def example_keyring_def key_1_def safe_integer_def
      cipher_key_length_def encryption_128_def example_iv_def)

text \<open>
  The claim C1 as stated fails: this plaintext is encrypted, and \<open>decrypt\<close> of the
  envelope with the key id that \<open>encrypt\<close> returned gives another string, the
  replacement character.
\<close>

theorem lone_surrogate_not_restored:
  "keyring example_key_map example_options = Inr example_keyring
   \<and> keyring_encrypt example_keyring example_rng (JString [0xD800])
       = Inr (''dQEqx1hs5tu4voJOBWidNxl2Yhs/JbWY6iC/y0+kXDazioZuZbGyK1qOz7wsYOU9fFpYIKM0mOMJUrLpr0/Piw=='',
              Num 1, ''5938c0c12bfebd7839684b7512dfd31423a09584'')
   \<and> keyring_decrypt example_keyring
         ''dQEqx1hs5tu4voJOBWidNxl2Yhs/JbWY6iC/y0+kXDazioZuZbGyK1qOz7wsYOU9fFpYIKM0mOMJUrLpr0/Piw==''
         (JNumber (Num 1))
       = Inr [0xFFFD]"
proof -
  have e: "keyring_encrypt example_keyring example_rng (JString [0xD800])
       = Inr (''dQEqx1hs5tu4voJOBWidNxl2Yhs/JbWY6iC/y0+kXDazioZuZbGyK1qOz7wsYOU9fFpYIKM0mOMJUrLpr0/Piw=='',
              Num 1, ''5938c0c12bfebd7839684b7512dfd31423a09584'')"
    unfolding keyring_encrypt_eq[OF example_current example_registry(3,4)]
    by (simp only: example_key example_randomBytes surrogate_plaintext surrogate_envelope
        surrogate_digest)
  have d: "keyring_decrypt example_keyring
         ''dQEqx1hs5tu4voJOBWidNxl2Yhs/JbWY6iC/y0+kXDazioZuZbGyK1qOz7wsYOU9fFpYIKM0mOMJUrLpr0/Piw==''
         (JNumber (Num 1))
       = Inr [0xFFFD]"
    using keyring_decrypt_envelope[OF example_registry(1,2) example_key(3) example_registry(3,4,5),
        of "[0xEF, 0xBF, 0xBD]"]
    by (simp only: surrogate_envelope surrogate_decode)
  from example_keyring e d show ?thesis by (intro conjI)
qed

section \<open>The current key and the rotation of keys\<close>

lemma keyring_merged: "keyring key_map opts = Inr kr \<Longrightarrow> merged kr = assign_defaults opts"
  by (auto simp: keyring_def split: option.splits sum.splits)

lemma keyring_keys:
  assumes "keyring key_map opts = Inr kr"
  obtains n where "cipher_key_length (property_name (encryption (assign_defaults opts))) = Some n"
    "keys kr = map (key_of_entry n) key_map"
proof -
  from assms obtain s n a where h: "encryption (assign_defaults opts) = Defined a"
    "cipher_key_length a = Some n"
    "kr = \<lparr>keys = map (key_of_entry n) key_map,
           merged = \<lparr>encryption = Defined a, salt = Some s\<rparr>\<rparr>"
    unfolding keyring_Inr by blast
  show ?thesis
    by (rule that[of n]) (simp_all add: h)
qed

lemma keyring_currentId_eq: "currentKey (keys kr) = Inr k \<Longrightarrow> keyring_currentId kr = Inr (id_num k)"
  by (simp add: keyring_currentId_def)

text \<open>
  A keyring built from the key map with one more entry, whose id reads as the successor
  of the largest id, under the same options.
\<close>

lemma rotation:
  assumes kr: "keyring key_map opts = Inr kr"
    and cur: "currentKey (keys kr) = Inr k" "k \<in> set (keys kr)"
      "\<forall>x \<in> set (keys kr). \<not> num_gt (id_num x) (id_num k)"
    and m: "merged kr = \<lparr>encryption = Defined a, salt = Some s\<rparr>"
      "cipher_key_length a = Some (length (encryptionKey k))"
    and idk: "id_num k = Num N"
    and ext: "set key_map' = insert (i, v) (set key_map)" "parseInt10 i = Num (N + 1)"
    and kr': "keyring key_map' opts = Inr kr'" "valid_registry (keys kr')"
  shows "keyring_currentId kr' = Inr (Num (N + 1))"
    "\<exists>env d. keyring_encrypt kr' rng (JString p) = Inr (env, Num (N + 1), d)"
    "keyring_encrypt kr rng (JString p) = Inr (env, Num N, d) \<Longrightarrow>
     keyring_decrypt kr' env (JNumber (Num N)) = Inr (utf8_decode (utf8_encode p))"
proof -
  from keyring_keys[OF kr] obtain n where
    n: "cipher_key_length (property_name (encryption (assign_defaults opts))) = Some n"
    "keys kr = map (key_of_entry n) key_map" by blast
  from keyring_keys[OF kr'(1)] obtain n' where
    n': "cipher_key_length (property_name (encryption (assign_defaults opts))) = Some n'"
    "keys kr' = map (key_of_entry n') key_map'" by blast
  from n(1) n'(1) have "n' = n" by simp
  with n'(2) have keys': "keys kr' = map (key_of_entry n) key_map'" by simp
  define new where "new = key_of_entry n (i, v)"
  have idn: "id_num new = Num (N + 1)" by (simp add: new_def key_of_entry_def ext(2))
  have S: "set (keys kr') = insert new (set (keys kr))"
    by (simp add: keys' n(2) ext(1) new_def)
  have m': "merged kr' = \<lparr>encryption = Defined a, salt = Some s\<rparr>"
    by (simp only: keyring_merged[OF kr'(1)] keyring_merged[OF kr, symmetric] m(1))
  from keyring_current[OF kr'(1)] obtain k' s' a' where c': "currentKey (keys kr') = Inr k'"
    "k' \<in> set (keys kr')" "\<forall>x \<in> set (keys kr'). \<not> num_gt (id_num x) (id_num k')"
    "merged kr' = \<lparr>encryption = Defined a', salt = Some s'\<rparr>"
    "cipher_key_length a' = Some (length (encryptionKey k'))"
    by metis
  from valid_registry_ids(1)[OF kr'(2)] c'(2) obtain M where M: "id_num k' = Num M" by blast
  have "new \<in> set (keys kr')" by (simp add: S)
  with c'(3) have "\<not> num_gt (id_num new) (id_num k')" by blast
  then have ge: "N + 1 \<le> M" by (simp add: idn M num_gt_Num)
  have "M = N + 1"
  proof (cases "k' = new")
    case True
    with idn M show ?thesis by simp
  next
    case False
    with c'(2) S have "k' \<in> set (keys kr)" by simp
    with cur(3) have "\<not> num_gt (id_num k') (id_num k)" by blast
    then have "M \<le> N" by (simp add: idk M num_gt_Num)
    with ge show ?thesis by simp
  qed
  with M have idk': "id_num k' = Num (N + 1)" by simp
  show "keyring_currentId kr' = Inr (Num (N + 1))"
    by (simp only: keyring_currentId_eq[OF c'(1)] idk')
  show "\<exists>env d. keyring_encrypt kr' rng (JString p) = Inr (env, Num (N + 1), d)"
    unfolding keyring_encrypt_eq[OF c'(1,4,5)] idk' by blast
  show "keyring_decrypt kr' env (JNumber (Num N)) = Inr (utf8_decode (utf8_encode p))"
    if "keyring_encrypt kr rng (JString p) = Inr (env, Num N, d)"
  proof -
    from that have env: "env = envelope k (randomBytes 16 rng) (utf8_encode p)"
      unfolding keyring_encrypt_eq[OF cur(1) m] by simp
    have "k \<in> set (keys kr')" using cur(2) by (simp add: S)
    from keyring_decrypt_envelope[OF kr'(2) this idk m' m(2) length_randomBytes]
    show ?thesis unfolding env .
  qed
qed

text \<open>
  C4: the current key is a key of the registry that no key exceeds in its id, \<open>currentId\<close>
  gives its id and \<open>encrypt\<close> reports it. When the registry of distinct safe integers
  is built again from the key map with one more key, whose id is the largest id plus
  one, \<open>currentId\<close> and \<open>encrypt\<close> give the new id, and the envelopes made under the old
  id are still decrypted with the new keyring.
\<close>

theorem current_key_and_rotation:
  "keyring key_map opts = Inr kr \<Longrightarrow>
   \<exists>k. currentKey (keys kr) = Inr k \<and> k \<in> set (keys kr)
     \<and> (\<forall>x \<in> set (keys kr). \<not> num_gt (id_num x) (id_num k))
     \<and> (\<forall>x \<in> set (keys kr). \<forall>m N. id_num x = Num m \<and> id_num k = Num N \<longrightarrow> m \<le> N)
     \<and> keyring_currentId kr = Inr (id_num k)
     \<and> (\<forall>rng p. \<exists>env d. keyring_encrypt kr rng (JString p) = Inr (env, id_num k, d))
     \<and> (\<forall>N key_map' kr' i v.
          id_num k = Num N \<and> set key_map' = insert (i, v) (set key_map)
          \<and> parseInt10 i = Num (N + 1)
          \<and> keyring key_map' opts = Inr kr' \<and> valid_registry (keys kr') \<longrightarrow>
            keyring_currentId kr' = Inr (Num (N + 1))
          \<and> (\<forall>rng p. \<exists>env d. keyring_encrypt kr' rng (JString p) = Inr (env, Num (N + 1), d))
          \<and> (\<forall>rng p env d. keyring_encrypt kr rng (JString p) = Inr (env, Num N, d) \<longrightarrow>
                keyring_decrypt kr' env (JNumber (Num N))
                  = Inr (utf8_decode (utf8_encode p))))"
proof -
  assume kr: "keyring key_map opts = Inr kr"
  from keyring_current[OF kr] obtain k s a where c: "currentKey (keys kr) = Inr k"
    "k \<in> set (keys kr)" "\<forall>x \<in> set (keys kr). \<not> num_gt (id_num x) (id_num k)"
    and m: "merged kr = \<lparr>encryption = Defined a, salt = Some s\<rparr>"
    "cipher_key_length a = Some (length (encryptionKey k))"
    by metis
  have 4: "\<forall>x \<in> set (keys kr). \<forall>m N. id_num x = Num m \<and> id_num k = Num N \<longrightarrow> m \<le> N"
  proof (intro ballI allI impI)
    fix x m N assume "x \<in> set (keys kr)" "id_num x = Num m \<and> id_num k = Num N"
    with c(3) have "\<not> num_gt (Num m) (Num N)" by auto
    then show "m \<le> N" by (simp add: num_gt_Num)
  qed
  note 5 = keyring_currentId_eq[OF c(1)]
  have 6: "\<forall>rng p. \<exists>env d. keyring_encrypt kr rng (JString p) = Inr (env, id_num k, d)"
    unfolding keyring_encrypt_eq[OF c(1) m] by blast
  have 7: "\<forall>N key_map' kr' i v.
          id_num k = Num N \<and> set key_map' = insert (i, v) (set key_map)
          \<and> parseInt10 i = Num (N + 1)
          \<and> keyring key_map' opts = Inr kr' \<and> valid_registry (keys kr') \<longrightarrow>
            keyring_currentId kr' = Inr (Num (N + 1))
          \<and> (\<forall>rng p. \<exists>env d. keyring_encrypt kr' rng (JString p) = Inr (env, Num (N + 1), d))
          \<and> (\<forall>rng p env d. keyring_encrypt kr rng (JString p) = Inr (env, Num N, d) \<longrightarrow>
                keyring_decrypt kr' env (JNumber (Num N))
                  = Inr (utf8_decode (utf8_encode p)))"
  proof (intro allI impI)
    fix N key_map' kr' i v
    assume h: "id_num k = Num N \<and> set key_map' = insert (i, v) (set key_map)
          \<and> parseInt10 i = Num (N + 1)
          \<and> keyring key_map' opts = Inr kr' \<and> valid_registry (keys kr')"
    then have h': "id_num k = Num N" "set key_map' = insert (i, v) (set key_map)"
      "parseInt10 i = Num (N + 1)" "keyring key_map' opts = Inr kr'"
      "valid_registry (keys kr')" by blast+
    note r = rotation[OF kr c m h']
    show "keyring_currentId kr' = Inr (Num (N + 1))
          \<and> (\<forall>rng p. \<exists>env d. keyring_encrypt kr' rng (JString p) = Inr (env, Num (N + 1), d))
          \<and> (\<forall>rng p env d. keyring_encrypt kr rng (JString p) = Inr (env, Num N, d) \<longrightarrow>
                keyring_decrypt kr' env (JNumber (Num N))
                  = Inr (utf8_decode (utf8_encode p)))"
      using r(1) r(2) r(3) by blast
  qed
  from c(1,2,3) 4 5 6 7 show ?thesis by blast
qed

theorem current_key_and_rotation_witness:
  "keyring two_key_map empty_salt_options = Inr two_keyring
   \<and> currentKey (keys two_keyring) = Inr key_1 \<and> id_num key_1 = Num 1
   \<and> map id_num (keys two_keyring) = [Num 0, Num 1]
   \<and> keyring_currentId two_keyring = Inr (Num 1)
   \<and> set three_key_map = insert (str ''2'', SecretBase64 secret_next) (set two_key_map)
   \<and> parseInt10 (str ''2'') = Num (1 + 1)
   \<and> keyring three_key_map empty_salt_options = Inr three_keyring
   \<and> valid_registry (keys three_keyring)
   \<and> keyring_currentId three_keyring = Inr (Num 2)
   \<and> (\<exists>env d. keyring_encrypt three_keyring zero_rng (JString (str ''42'')) = Inr (env, Num 2, d))
   \<and> (\<exists>env d. keyring_encrypt two_keyring zero_rng (JString (str ''42'')) = Inr (env, Num 1, d)
         \<and> keyring_decrypt three_keyring env (JNumber (Num 1)) = Inr (str ''42''))"
proof -
  have cur: "currentKey (keys two_keyring) = Inr key_1"
    by (simp add: two_keyring_def key_0_def key_1_def num_gt_def)
  have ids: "map id_num (keys two_keyring) = [Num 0, Num 1]"
    by (simp add: two_keyring_def key_0_def key_1_def)
  have ext: "set three_key_map = insert (str ''2'', SecretBase64 secret_next) (set two_key_map)"
    by (auto simp: three_key_map_def two_key_map_def)
  have two: "parseInt10 (str ''2'') = Num (1 + 1)" by code_simp
  have v: "valid_registry (keys three_keyring)"
    by (simp add: valid_registry_def three_keyring_def key_0_def key_1_def key_2_def
        safe_integer_def)
  have u: "utf8_decode (utf8_encode (str ''42'')) = str ''42''" by code_simp
  from current_key_and_rotation[OF two_keyring] obtain k where t:
    "currentKey (keys two_keyring) = Inr k"
    "keyring_currentId two_keyring = Inr (id_num k)"
    "\<forall>rng p. \<exists>env d. keyring_encrypt two_keyring rng (JString p) = Inr (env, id_num k, d)"
    "\<forall>N key_map' kr' i v.
          id_num k = Num N \<and> set key_map' = insert (i, v) (set two_key_map)
          \<and> parseInt10 i = Num (N + 1)
          \<and> keyring key_map' empty_salt_options = Inr kr' \<and> valid_registry (keys kr') \<longrightarrow>
            keyring_currentId kr' = Inr (Num (N + 1))
          \<and> (\<forall>rng p. \<exists>env d. keyring_encrypt kr' rng (JString p) = Inr (env, Num (N + 1), d))
          \<and> (\<forall>rng p env d. keyring_encrypt two_keyring rng (JString p) = Inr (env, Num N, d) \<longrightarrow>
                keyring_decrypt kr' env (JNumber (Num N))
                  = Inr (utf8_decode (utf8_encode p)))"
    by blast
  from t(1) have k: "k = key_1" by (simp only: cur sum.inject)
  note idk = example_key(3)
  have cid: "keyring_currentId two_keyring = Inr (Num 1)" by (simp only: t(2) k idk)
  from t(3) obtain env d where
    e: "keyring_encrypt two_keyring zero_rng (JString (str ''42'')) = Inr (env, Num 1, d)"
    unfolding k idk by blast
  from t(4)[rule_format, of 1 three_key_map "str ''2''" "SecretBase64 secret_next" three_keyring]
    ext two three_keyring v
  have r: "keyring_currentId three_keyring = Inr (Num (1 + 1))"
    "\<forall>rng p. \<exists>env d. keyring_encrypt three_keyring rng (JString p) = Inr (env, Num (1 + 1), d)"
    "\<forall>rng p env d. keyring_encrypt two_keyring rng (JString p) = Inr (env, Num 1, d) \<longrightarrow>
          keyring_decrypt three_keyring env (JNumber (Num 1)) = Inr (utf8_decode (utf8_encode p))"
    unfolding k idk by blast+
  from r(1) have c3: "keyring_currentId three_keyring = Inr (Num 2)" by simp
  from r(2) have e3: "\<exists>env d. keyring_encrypt three_keyring zero_rng (JString (str ''42''))
      = Inr (env, Num 2, d)" by simp
  from r(3) e have "keyring_decrypt three_keyring env (JNumber (Num 1))
      = Inr (utf8_decode (utf8_encode (str ''42'')))" by blast
  then have "keyring_decrypt three_keyring env (JNumber (Num 1)) = Inr (str ''42'')"
    by (simp only: u)
  with e have d3: "\<exists>env d. keyring_encrypt two_keyring zero_rng (JString (str ''42''))
      = Inr (env, Num 1, d)
      \<and> keyring_decrypt three_keyring env (JNumber (Num 1)) = Inr (str ''42'')" by blast
  from two_keyring cur idk ids cid ext two three_keyring v c3 e3 d3 show ?thesis by (intro conjI)
qed

end
